theory Spec2Isabelle
  imports Complex_Main
begin

section \<open>Sten: LSB image steganography (sten.pyw)\<close>

text \<open>
  The codec of \<^verbatim>\<open>sten.pyw\<close>: the capacity arithmetic of \<^verbatim>\<open>open_\<close> and
  \<^verbatim>\<open>refresh\<close>, the embedding loop of \<^verbatim>\<open>encode\<close>, the extraction loop of
  \<^verbatim>\<open>decode\<close>, and the brute-force search of the later revision of the same program
  (\<^verbatim>\<open>possibilities\<close>).  Python strings of binary digits are kept as strings of the
  characters \<^verbatim>\<open>0\<close> and \<^verbatim>\<open>1\<close>; every \<^verbatim>\<open>raise\<close> of the source is a
  branch returning \<open>Inl\<close>.
\<close>

subsection \<open>Constants\<close>

text \<open>
  Modelled from the spec: the constant \<^verbatim>\<open>B\<close> of the module \<^verbatim>\<open>consts\<close> (imported
  with \<^verbatim>\<open>from consts import *\<close>, not part of the sources at hand) is the bit depth of
  a channel, 8.  \<^verbatim>\<open>DELIMITER\<close>, of the same module, is a parameter \<open>delim\<close> of every
  function that reads it.
\<close>

definition B :: nat where
  "B = 8"

text \<open>
  Modelled from the spec: the constant \<^verbatim>\<open>RGB\<close> of the module \<^verbatim>\<open>consts\<close>, the
  number of bands that have a scale (red, green, blue).
\<close>

definition RGB :: nat where
  "RGB = 3"

subsection \<open>Errors\<close>

datatype error =
    InvalidCharacter char
  | InvalidKey
  | Cancelled
  | InvalidExtension
  | CiphertextTooLong nat
  | NoHiddenMessage
  | IndexError
  | ValueError

subsection \<open>Python string helpers\<close>

text \<open>\<^verbatim>\<open>s.endswith(d)\<close>\<close>

definition endswith :: "string \<Rightarrow> string \<Rightarrow> bool" where
  "endswith s d = (length d \<le> length s \<and> drop (length s - length d) s = d)"

text \<open>\<^verbatim>\<open>d in s\<close>\<close>

primrec contains :: "string \<Rightarrow> string \<Rightarrow> bool" where
  "contains [] d = (d = [])"
| "contains (c # s) d = (take (length d) (c # s) = d \<or> contains s d)"

text \<open>\<^verbatim>\<open>s.removesuffix(d)\<close>\<close>

definition removesuffix :: "string \<Rightarrow> string \<Rightarrow> string" where
  "removesuffix s d = (if d \<noteq> [] \<and> endswith s d then take (length s - length d) s else s)"

text \<open>\<^verbatim>\<open>s[:k]\<close> and \<^verbatim>\<open>s[k:]\<close> for an integer \<open>k\<close>: a negative bound counts from the end.\<close>

definition slice_to :: "'a list \<Rightarrow> int \<Rightarrow> 'a list" where
  "slice_to s k = (if k < 0 then take (nat (int (length s) + k)) s else take (nat k) s)"

definition slice_from :: "'a list \<Rightarrow> int \<Rightarrow> 'a list" where
  "slice_from s k = (if k < 0 then drop (nat (int (length s) + k)) s else drop (nat k) s)"

text \<open>\<^verbatim>\<open>s[i:j]\<close> for \<open>0 \<le> i \<le> j\<close>.\<close>

definition slice :: "'a list \<Rightarrow> nat \<Rightarrow> nat \<Rightarrow> 'a list" where
  "slice s i j = take (j - i) (drop i s)"

text \<open>\<^verbatim>\<open>c in string.printable\<close>: digits, letters, punctuation and white space.\<close>

definition printable :: "char \<Rightarrow> bool" where
  "printable c = (let n = (of_char c :: nat) in (32 \<le> n \<and> n \<le> 126) \<or> (9 \<le> n \<and> n \<le> 13))"

subsection \<open>Bit framer\<close>

definition bit_char :: "nat \<Rightarrow> char" where
  "bit_char n = (if n = 0 then CHR ''0'' else CHR ''1'')"

text \<open>The binary digits of \<open>n\<close>, most significant first, without padding.\<close>

function bin_digits :: "nat \<Rightarrow> string" where
  "bin_digits n = (if n < 2 then [bit_char n] else bin_digits (n div 2) @ [bit_char (n mod 2)])"
  by pat_completeness auto
termination
  by (relation "measure (\<lambda>n. n)") auto

declare bin_digits.simps [simp del]

text \<open>\<^verbatim>\<open>format(n, f'0{B}b')\<close>: zero-padded to at least \<open>B\<close> digits.\<close>

definition format_b :: "nat \<Rightarrow> string" where
  "format_b n = replicate (B - length (bin_digits n)) CHR ''0'' @ bin_digits n"

definition binary :: "string \<Rightarrow> bool" where
  "binary s = list_all (\<lambda>c. c = CHR ''0'' \<or> c = CHR ''1'') s"

definition bval :: "string \<Rightarrow> nat" where
  "bval s = foldl (\<lambda>a c. 2 * a + (if c = CHR ''1'' then 1 else 0)) 0 s"

text \<open>
  \<^verbatim>\<open>int(s, 2)\<close> on the strings the codec builds: it raises \<^verbatim>\<open>ValueError\<close> on the
  empty string and on any character that is not a binary digit.
\<close>

definition int2 :: "string \<Rightarrow> nat option" where
  "int2 s = (if s \<noteq> [] \<and> binary s then Some (bval s) else None)"

text \<open>\<^verbatim>\<open>''.join(format(ord(_), f'0{B}b') for _ in message)\<close>\<close>

definition to_bits :: "string \<Rightarrow> string" where
  "to_bits message = concat (map (\<lambda>c. format_b (of_char c)) message)"

subsection \<open>State\<close>

type_synonym image = "nat list list"

record Globals =
  band_lsb :: "(nat \<times> nat) list"
  ch_limit :: int

record Picture =
  pixel :: nat
  imagedata :: image

subsection \<open>Capacity (\<^verbatim>\<open>open_\<close> and \<^verbatim>\<open>refresh\<close>)\<close>

text \<open>
  \<^verbatim>\<open>ch_capacity = (Picture.pixel * len(band_scl)) - len(DELIMITER)\<close>, the capacity that
  \<^verbatim>\<open>open_\<close> puts into the image properties; \<open>band_scl\<close> is the list of scales.
\<close>

definition ch_capacity :: "nat \<Rightarrow> 'a list \<Rightarrow> string \<Rightarrow> int" where
  "ch_capacity pix band_scl delim = (int pix * int (length band_scl)) - int (length delim)"

text \<open>\<^verbatim>\<open>((Picture.pixel * sum(band_lsb.values())) // B) - len(DELIMITER)\<close>\<close>

definition limit_of :: "nat \<Rightarrow> (nat \<times> nat) list \<Rightarrow> string \<Rightarrow> int" where
  "limit_of pix bl delim = ((int pix * int (sum_list (map snd bl))) div int B) - int (length delim)"

text \<open>
  The dictionary comprehension of \<^verbatim>\<open>refresh\<close>: the bands whose scale is not 0, in the
  order of the scales.
\<close>

definition scale_band_lsb :: "nat list \<Rightarrow> (nat \<times> nat) list" where
  "scale_band_lsb scales = filter (\<lambda>(band, lsb). lsb \<noteq> 0) (enumerate 0 scales)"

text \<open>
  \<^verbatim>\<open>refresh\<close>, without the widgets it enables and colours.  \<open>widget\<close> is \<open>Some k\<close>
  when the event comes from the scale of band \<open>k\<close>, \<open>None\<close> for any other widget.
  The result is the new globals, the scales (a scale moved to 0 while all others are 0
  is set back to 1) and the message text, cut to the limit.
\<close>

definition refresh ::
  "string \<Rightarrow> Picture \<Rightarrow> nat list \<Rightarrow> nat option \<Rightarrow> string \<Rightarrow> Globals \<times> nat list \<times> string" where
  "refresh delim pic scales widget message =
     (let bl0 = scale_band_lsb scales;
          fix = (case widget of None \<Rightarrow> False | Some k \<Rightarrow> length bl0 = 0);
          bl = (case widget of None \<Rightarrow> bl0 | Some k \<Rightarrow> if fix then [(k, 1)] else bl0);
          scales' = (case widget of None \<Rightarrow> scales | Some k \<Rightarrow> if fix then scales[k := 1] else scales);
          lim = limit_of (pixel pic) bl delim;
          message' = (if int (length message) > lim then slice_to message lim else message)
      in (\<lparr>band_lsb = bl, ch_limit = lim\<rparr>, scales', message'))"

subsection \<open>Pixel order\<close>

text \<open>
  \<^verbatim>\<open>pixels = list(range(Picture.pixel))\<close>, shuffled when the seed entry is not empty.
  \<^verbatim>\<open>random.seed(seed); random.shuffle(pixels)\<close> is the standard library's generator:
  the parameter \<open>shuffle\<close>, a function of the seed and the list.
\<close>

definition pixel_order :: "(string \<Rightarrow> nat list \<Rightarrow> nat list) \<Rightarrow> nat \<Rightarrow> string \<Rightarrow> nat list" where
  "pixel_order shuffle P seed = (if seed \<noteq> [] then shuffle seed [0..<P] else [0..<P])"

subsection \<open>Pixel access\<close>

text \<open>\<^verbatim>\<open>image[pix][band]\<close>: an index out of range raises \<^verbatim>\<open>IndexError\<close>.\<close>

definition getpx :: "image \<Rightarrow> nat \<Rightarrow> nat \<Rightarrow> nat option" where
  "getpx img pix band =
     (if pix < length img \<and> band < length (img ! pix) then Some (img ! pix ! band) else None)"

text \<open>\<^verbatim>\<open>image[pix][band] = v\<close>, after the read of the same place has succeeded.\<close>

definition setpx :: "image \<Rightarrow> nat \<Rightarrow> nat \<Rightarrow> nat \<Rightarrow> image" where
  "setpx img pix band v = img[pix := (img ! pix)[band := v]]"

subsection \<open>Embedding (\<^verbatim>\<open>encode\<close>)\<close>

text \<open>
  \<^verbatim>\<open>pack = val[:B - lsb] + (_ := bits[i:i + lsb]) + val[B - lsb + len(_):]\<close>
\<close>

definition pack :: "string \<Rightarrow> nat \<Rightarrow> string \<Rightarrow> nat \<Rightarrow> string" where
  "pack val lsb bits i =
     (let u = slice bits i (i + lsb)
      in slice_to val (int B - int lsb) @ u @ slice_from val (int B - int lsb + int (length u)))"

text \<open>
  The loop over \<^verbatim>\<open>itertools.product(pixels, Globals.band_lsb)\<close>, from the cursor \<open>i\<close>
  on; \<^verbatim>\<open>break\<close> returns the image as it is.
\<close>

fun embed_loop :: "string \<Rightarrow> nat \<Rightarrow> image \<Rightarrow> (nat \<times> nat \<times> nat) list \<Rightarrow> error + image" where
  "embed_loop bits i img [] = Inr img"
| "embed_loop bits i img ((pix, band, lsb) # rest) =
     (if i \<ge> length bits then Inr img
      else case getpx img pix band of
             None \<Rightarrow> Inl IndexError
           | Some v \<Rightarrow>
               (case int2 (pack (format_b v) lsb bits i) of
                  None \<Rightarrow> Inl ValueError
                | Some n \<Rightarrow> embed_loop bits (i + lsb) (setpx img pix band n) rest))"

text \<open>
  Lines 278 to 308 of \<^verbatim>\<open>encode\<close>: the delimiter is appended, the characters become
  bits, the loop runs on a copy of the image data, and the array handed to the image
  library is cast with \<^verbatim>\<open>astype(np.uint8)\<close>.
\<close>

definition embed ::
  "string \<Rightarrow> (string \<Rightarrow> nat list \<Rightarrow> nat list) \<Rightarrow> string \<Rightarrow> string \<Rightarrow> Picture \<Rightarrow> Globals \<Rightarrow> error + image" where
  "embed delim shuffle seed message pic glob =
     (let message' = message @ delim;
          img = imagedata pic;
          bits = to_bits message';
          pixels = pixel_order shuffle (pixel pic) seed
      in case embed_loop bits 0 img (List.product pixels (band_lsb glob)) of
           Inl e \<Rightarrow> Inl e
         | Inr img' \<Rightarrow> Inr (map (map (\<lambda>v. v mod 256)) img'))"

text \<open>
  The cipher object \<^verbatim>\<open>crypto.ciphers[...](key)\<close>: the module \<^verbatim>\<open>crypto\<close> is not part
  of the sources at hand, so a cipher is its name and its two transformations.
\<close>

record cipher =
  name :: string
  encrypt :: "string \<Rightarrow> string"
  decrypt :: "string \<Rightarrow> string"

text \<open>
  \<^verbatim>\<open>encode\<close>.  What the user and the missing modules supply are parameters:
  \<open>hill\<close> is \<^verbatim>\<open>crypto.HILL\<close>, \<open>mk_cipher\<close> the result of constructing the cipher from
  the key (\<open>Inl\<close> when the constructor raises), \<open>output\<close> the file name of the save
  dialog (empty when cancelled), \<open>ext_ok\<close> whether its extension is one of
  \<^verbatim>\<open>EXTENSIONS_PICTURE\<close>.  The result is the array to be saved, or the error shown,
  together with the picture, which \<^verbatim>\<open>encode\<close> never assigns to.
\<close>

definition encode ::
  "string \<Rightarrow> string \<Rightarrow> (string \<Rightarrow> nat list \<Rightarrow> nat list) \<Rightarrow> error + cipher \<Rightarrow> string \<Rightarrow> bool
   \<Rightarrow> string \<Rightarrow> string \<Rightarrow> Picture \<Rightarrow> Globals \<Rightarrow> (error + image) \<times> Picture" where
  "encode delim hill shuffle mk_cipher output ext_ok seed message pic glob =
     (case find (\<lambda>char. \<not> printable char) message of
        Some char \<Rightarrow> (Inl (InvalidCharacter char), pic)
      | None \<Rightarrow>
     (case mk_cipher of
        Inl err \<Rightarrow> (Inl err, pic)
      | Inr ciph \<Rightarrow>
          if output = [] then (Inl Cancelled, pic)
          else if \<not> ext_ok then (Inl InvalidExtension, pic)
          else
            let message' = encrypt ciph message
            in if name ciph = hill \<and> int (length message') > ch_limit glob
               then (Inl (CiphertextTooLong (length message')), pic)
               else (embed delim shuffle seed message' pic glob, pic)))"

subsection \<open>Extraction (\<^verbatim>\<open>decode\<close>)\<close>

text \<open>\<^verbatim>\<open>s[-lsb:]\<close>: with \<open>lsb = 0\<close> this is \<^verbatim>\<open>s[0:]\<close>, the whole string.\<close>

definition last_n :: "nat \<Rightarrow> string \<Rightarrow> string" where
  "last_n lsb s = slice_from s (- int lsb)"

text \<open>
  The body of the extraction loop after the \<^verbatim>\<open>break\<close> test: one channel is read, and
  one character is produced when \<open>B\<close> bits are there.
\<close>

definition extract_step :: "image \<Rightarrow> string \<times> string \<Rightarrow> nat \<times> nat \<times> nat \<Rightarrow> error + (string \<times> string)" where
  "extract_step img st step =
     (case st of (bits, message) \<Rightarrow>
      case step of (pix, band, lsb) \<Rightarrow>
      case getpx img pix band of
        None \<Rightarrow> Inl IndexError
      | Some v \<Rightarrow>
          let bits' = bits @ last_n lsb (format_b v)
          in if length bits' \<ge> B
             then (case int2 (slice_to bits' (int B)) of
                     None \<Rightarrow> Inl ValueError
                   | Some n \<Rightarrow> Inr (slice_from bits' (int B), message @ [char_of n]))
             else Inr (bits', message))"

fun extract_loop :: "string \<Rightarrow> image \<Rightarrow> string \<times> string \<Rightarrow> (nat \<times> nat \<times> nat) list \<Rightarrow> error + string" where
  "extract_loop delim img (bits, message) [] = Inr message"
| "extract_loop delim img (bits, message) (step # rest) =
     (if endswith message delim then Inr message
      else case extract_step img (bits, message) step of
             Inl e \<Rightarrow> Inl e
           | Inr st \<Rightarrow> extract_loop delim img st rest)"

text \<open>
  Lines 358 to 382 of \<^verbatim>\<open>decode\<close>: the message found, without the delimiter, or
  \<open>NoHiddenMessage\<close> for the warning \<^verbatim>\<open>No hidden message found.\<close>
\<close>

definition extract_msg ::
  "string \<Rightarrow> (string \<Rightarrow> nat list \<Rightarrow> nat list) \<Rightarrow> string \<Rightarrow> Picture \<Rightarrow> Globals \<Rightarrow> error + string" where
  "extract_msg delim shuffle seed pic glob =
     (let pixels = pixel_order shuffle (pixel pic) seed
      in case extract_loop delim (imagedata pic) ([], []) (List.product pixels (band_lsb glob)) of
           Inl e \<Rightarrow> Inl e
         | Inr message \<Rightarrow>
             if \<not> contains message delim then Inl NoHiddenMessage
             else Inr (removesuffix message delim))"

subsection \<open>Brute-force search (\<^verbatim>\<open>decode\<close> of the later revision)\<close>

text \<open>\<^verbatim>\<open>itertools.compress(data, selectors)\<close>: the data whose selector is not 0.\<close>

definition compress :: "'a list \<Rightarrow> nat list \<Rightarrow> 'a list" where
  "compress data selectors = map fst (filter (\<lambda>(d, s). s \<noteq> 0) (zip data selectors))"

text \<open>
  \<^verbatim>\<open>possibilities = [tuple(compress(enumerate(t), t)) for t in product(range(B + 1), repeat=RGB)]\<close>
\<close>

definition possibilities :: "(nat \<times> nat) list list" where
  "possibilities = map (\<lambda>t. compress (enumerate 0 t) t) (product_lists (replicate RGB [0..<B + 1]))"

text \<open>
  The \<^verbatim>\<open>for i_lsb in ...\<close> loop with its \<^verbatim>\<open>else\<close> branch: each candidate is
  extracted from scratch, the first whose message ends with the delimiter wins.
\<close>

fun search :: "string \<Rightarrow> image \<Rightarrow> nat list \<Rightarrow> (nat \<times> nat) list list \<Rightarrow> error + string" where
  "search delim img pixels [] = Inl NoHiddenMessage"
| "search delim img pixels (i_lsb # rest) =
     (case extract_loop delim img ([], []) (List.product pixels i_lsb) of
        Inl e \<Rightarrow> Inl e
      | Inr message \<Rightarrow> if endswith message delim then Inr message else search delim img pixels rest)"

text \<open>
  From the pixel order to \<^verbatim>\<open>removesuffix\<close> in the later revision's \<^verbatim>\<open>decode\<close>.
  \<open>brute\<close> is \<^verbatim>\<open>config['brute'].get()\<close>, \<open>nonascii\<close> the helper of the module
  \<^verbatim>\<open>utils\<close> (not part of the sources at hand), which returns an offending character
  if there is one.
\<close>

definition decode_search ::
  "string \<Rightarrow> (string \<Rightarrow> nat list \<Rightarrow> nat list) \<Rightarrow> (string \<Rightarrow> char option) \<Rightarrow> bool \<Rightarrow> string
   \<Rightarrow> Picture \<Rightarrow> (nat \<times> nat) list \<Rightarrow> error + string" where
  "decode_search delim shuffle nonascii brute seed pic i_lsb =
     (let pixels = pixel_order shuffle (pixel pic) seed
      in case search delim (imagedata pic) pixels (if brute then possibilities else [i_lsb]) of
           Inl e \<Rightarrow> Inl e
         | Inr message \<Rightarrow>
             (case nonascii message of
                Some c \<Rightarrow> Inl (InvalidCharacter c)
              | None \<Rightarrow> Inr (removesuffix message delim)))"

text \<open>The message that the extraction loop ends with for one candidate allocation.\<close>

definition candidate_message :: "string \<Rightarrow> image \<Rightarrow> nat list \<Rightarrow> (nat \<times> nat) list \<Rightarrow> string" where
  "candidate_message delim img pixels i_lsb =
     (case extract_loop delim img ([], []) (List.product pixels i_lsb) of
        Inl e \<Rightarrow> []
      | Inr message \<Rightarrow> message)"

subsection \<open>Well-formed inputs and the bit stream of a traversal\<close>

text \<open>
  The data model: every channel value is a byte, every pixel has \<open>chans\<close> channels, the
  allocation names each band once, with 1 to 8 bits, and the pixel order visits each
  pixel once.
\<close>

definition picture_ok :: "nat \<Rightarrow> Picture \<Rightarrow> bool" where
  "picture_ok chans pic =
     (length (imagedata pic) = pixel pic
      \<and> list_all (\<lambda>px. length px = chans \<and> list_all (\<lambda>v. v < 256) px) (imagedata pic))"

definition alloc_ok :: "nat \<Rightarrow> (nat \<times> nat) list \<Rightarrow> bool" where
  "alloc_ok chans bl =
     (distinct (map fst bl) \<and> list_all (\<lambda>(band, lsb). band < chans \<and> 1 \<le> lsb \<and> lsb \<le> B) bl)"

definition order_ok :: "nat \<Rightarrow> nat list \<Rightarrow> bool" where
  "order_ok P pixels = (distinct pixels \<and> list_all (\<lambda>p. p < P) pixels \<and> length pixels = P)"

definition image_ok :: "image \<Rightarrow> bool" where
  "image_ok img = list_all (list_all (\<lambda>v. v < 256)) img"

definition steps_ok :: "image \<Rightarrow> (nat \<times> nat \<times> nat) list \<Rightarrow> bool" where
  "steps_ok img steps =
     (distinct (map (\<lambda>(p, b, l). (p, b)) steps)
      \<and> list_all (\<lambda>(p, b, l). p < length img \<and> b < length (img ! p) \<and> 1 \<le> l \<and> l \<le> B) steps)"

text \<open>The bits a traversal reads, all of them, in order.\<close>

definition read_bits :: "image \<Rightarrow> (nat \<times> nat \<times> nat) list \<Rightarrow> string" where
  "read_bits img steps = concat (map (\<lambda>(p, b, l). last_n l (format_b (img ! p ! b))) steps)"

text \<open>\<open>xs\<close> written over the front of \<open>ys\<close>, as far as \<open>ys\<close> goes.\<close>

definition overlay :: "'a list \<Rightarrow> 'a list \<Rightarrow> 'a list" where
  "overlay xs ys = take (length ys) xs @ drop (length xs) ys"

text \<open>
  The extraction loop without its \<^verbatim>\<open>break\<close>: the accumulator and the running message
  after the given steps.
\<close>

fun run_steps :: "image \<Rightarrow> string \<times> string \<Rightarrow> (nat \<times> nat \<times> nat) list \<Rightarrow> error + (string \<times> string)" where
  "run_steps img st [] = Inr st"
| "run_steps img st (step # rest) =
     (case extract_step img st step of Inl e \<Rightarrow> Inl e | Inr st' \<Rightarrow> run_steps img st' rest)"

text \<open>
  The running message after the first \<open>k\<close> steps of a traversal that starts with the
  accumulator and message \<open>st\<close>.
\<close>

definition running :: "image \<Rightarrow> string \<times> string \<Rightarrow> (nat \<times> nat \<times> nat) list \<Rightarrow> nat \<Rightarrow> string" where
  "running img st steps k = (case run_steps img st (take k steps) of Inl e \<Rightarrow> [] | Inr st' \<Rightarrow> snd st')"

text \<open>
  No proper prefix of the framed message ends with the delimiter: the delimiter that
  \<^verbatim>\<open>encode\<close> appends is the first one extraction meets.
\<close>

definition delimiter_first :: "string \<Rightarrow> string \<Rightarrow> bool" where
  "delimiter_first delim M =
     list_all (\<lambda>k. \<not> endswith (take k (M @ delim)) delim) [0..<length (M @ delim)]"

text \<open>
  Reading a bit stream character by character until the message ends with the
  delimiter or fewer than \<open>B\<close> bits are left.
\<close>

function scan :: "string \<Rightarrow> string \<Rightarrow> string \<Rightarrow> string" where
  "scan delim message s =
     (if endswith message delim \<or> length s < B then message
      else scan delim (message @ [char_of (bval (take B s))]) (drop B s))"
  by pat_completeness auto
termination
  by (relation "measure (\<lambda>(delim, message, s). length s)") (auto simp: B_def)

declare scan.simps [simp del]

subsection \<open>Binary strings\<close>

lemma bval_Nil [simp]: "bval [] = 0"
  by (simp add: bval_def)

lemma bval_snoc [simp]: "bval (s @ [c]) = 2 * bval s + (if c = CHR ''1'' then 1 else 0)"
  by (simp add: bval_def)

lemma bval_append: "bval (a @ b) = bval a * 2 ^ length b + bval b"
proof (induction b rule: rev_induct)
  case Nil
  then show ?case by simp
next
  case (snoc c b)
  have "bval (a @ b @ [c]) = bval ((a @ b) @ [c])" by simp
  also have "\<dots> = 2 * bval (a @ b) + (if c = CHR ''1'' then 1 else 0)" by (rule bval_snoc)
  finally show ?case using snoc by (simp add: algebra_simps)
qed

lemma bval_lt: "bval s < 2 ^ length s"
  by (induction s rule: rev_induct) auto

lemma binary_Nil [simp]: "binary []"
  by (simp add: binary_def)

lemma binary_Cons [simp]: "binary (c # s) = ((c = CHR ''0'' \<or> c = CHR ''1'') \<and> binary s)"
  by (simp add: binary_def)

lemma binary_append [simp]: "binary (a @ b) = (binary a \<and> binary b)"
  by (simp add: binary_def)

lemma binary_take: "binary s \<Longrightarrow> binary (take n s)"
  by (metis append_take_drop_id binary_append)

lemma binary_drop: "binary s \<Longrightarrow> binary (drop n s)"
  by (metis append_take_drop_id binary_append)

lemma binary_replicate [simp]: "binary (replicate n CHR ''0'')"
  by (induction n) auto

lemma binary_bin_digits: "binary (bin_digits n)"
  by (induction n rule: bin_digits.induct) (subst bin_digits.simps, simp add: bit_char_def)

lemma bval_bin_digits: "bval (bin_digits n) = n"
proof (induction n rule: bin_digits.induct)
  case (1 n)
  show ?case
  proof (cases "n < 2")
    case True
    then show ?thesis by (subst bin_digits.simps) (auto simp: bit_char_def bval_def)
  next
    case False
    with 1 have ih: "bval (bin_digits (n div 2)) = n div 2" by simp
    have "bin_digits n = bin_digits (n div 2) @ [bit_char (n mod 2)]"
      using False by (subst bin_digits.simps) simp
    then have "bval (bin_digits n) = 2 * (n div 2) + (if n mod 2 = 0 then 0 else 1)"
      using ih by (simp add: bit_char_def)
    also have "\<dots> = n" by presburger
    finally show ?thesis .
  qed
qed

lemma length_bin_digits: "n < 2 ^ k \<Longrightarrow> 0 < k \<Longrightarrow> length (bin_digits n) \<le> k"
proof (induction n arbitrary: k rule: bin_digits.induct)
  case (1 n)
  show ?case
  proof (cases "n < 2")
    case True
    with 1 show ?thesis by (subst bin_digits.simps) auto
  next
    case False
    then obtain j where k: "k = Suc j" "0 < j"
      using "1.prems" by (cases k; cases "k - 1") auto
    with "1.prems" have "n div 2 < 2 ^ j" by auto
    with 1 False k have "length (bin_digits (n div 2)) \<le> j" by simp
    with False k show ?thesis by (subst bin_digits.simps) auto
  qed
qed

lemma bval_replicate0 [simp]: "bval (replicate n CHR ''0'' @ s) = bval s"
  by (induction n) (auto simp: bval_append bval_def)

lemma length_format_b: "v < 256 \<Longrightarrow> length (format_b v) = 8"
  using length_bin_digits [of v 8] by (simp add: format_b_def B_def)

lemma binary_format_b [simp]: "binary (format_b v)"
  by (simp add: format_b_def binary_bin_digits)

lemma bval_format_b [simp]: "bval (format_b v) = v"
  by (simp add: format_b_def bval_bin_digits)

lemma bval_inj:
  "binary s \<Longrightarrow> binary t \<Longrightarrow> length s = length t \<Longrightarrow> bval s = bval t \<Longrightarrow> s = t"
proof (induction s arbitrary: t rule: rev_induct)
  case Nil
  then show ?case by simp
next
  case (snoc c s)
  then obtain t' c' where t: "t = t' @ [c']"
    by (cases t rule: rev_cases) auto
  with snoc.prems have eq: "2 * bval s + (if c = CHR ''1'' then 1 else 0) = 2 * bval t' + (if c' = CHR ''1'' then 1 else (0::nat))"
    by simp
  from snoc.prems t have bc: "c = CHR ''0'' \<or> c = CHR ''1''" "c' = CHR ''0'' \<or> c' = CHR ''1''"
    by auto
  from eq bc have "c = c'" by (auto split: if_splits) presburger+
  with eq have "bval s = bval t'" by simp
  with snoc t \<open>c = c'\<close> show ?case by auto
qed

lemma format_b_bval: "binary s \<Longrightarrow> length s = 8 \<Longrightarrow> format_b (bval s) = s"
proof -
  assume s: "binary s" "length s = 8"
  have "bval s < 256" using bval_lt [of s] s by simp
  then have "length (format_b (bval s)) = 8" by (rule length_format_b)
  with s show ?thesis by (intro bval_inj) auto
qed

lemma int2_Some: "binary s \<Longrightarrow> s \<noteq> [] \<Longrightarrow> int2 s = Some (bval s)"
  by (simp add: int2_def)

subsection \<open>The embedding loop\<close>

lemma length_last_n: "length s = 8 \<Longrightarrow> 1 \<le> l \<Longrightarrow> l \<le> 8 \<Longrightarrow> length (last_n l s) = l"
  by (auto simp: last_n_def slice_from_def)

lemma last_n_eq: "length s = 8 \<Longrightarrow> 1 \<le> l \<Longrightarrow> l \<le> 8 \<Longrightarrow> last_n l s = drop (8 - l) s"
  by (auto simp: last_n_def slice_from_def nat_diff_distrib')

lemma pack_eq:
  assumes "length val = 8" "l \<le> 8"
  shows "pack val l bits i =
     take (8 - l) val @ take l (drop i bits) @ drop (8 - l + min l (length bits - i)) val"
  using assms
  by (auto simp: pack_def slice_def slice_to_def slice_from_def B_def Let_def nat_diff_distrib' nat_add_distrib min_def)

lemma length_pack:
  assumes "length val = 8" "l \<le> 8"
  shows "length (pack val l bits i) = 8"
  using assms by (simp add: pack_eq)

lemma last_n_pack:
  assumes "length val = 8" "1 \<le> l" "l \<le> 8"
  shows "last_n l (pack val l bits i) = take l (drop i bits) @ drop (length (drop i bits)) (last_n l val)"
proof -
  have "last_n l (pack val l bits i) = drop (8 - l) (pack val l bits i)"
    using assms by (simp add: last_n_eq length_pack)
  also have "\<dots> = take l (drop i bits) @ drop (8 - l + min l (length bits - i)) val"
    using assms by (simp add: pack_eq)
  also have "drop (8 - l + min l (length bits - i)) val = drop (length (drop i bits)) (last_n l val)"
    using assms by (auto simp: last_n_eq min_def add.commute)
  finally show ?thesis .
qed

lemma overlay_Nil [simp]: "overlay [] ys = ys"
  by (simp add: overlay_def)

lemma overlay_append:
  "overlay xs (a @ r) = take (length a) xs @ drop (length xs) a @ overlay (drop (length a) xs) r"
proof (cases "length a \<le> length xs")
  case True
  then show ?thesis
    by (simp add: overlay_def take_add)
next
  case False
  then show ?thesis
    by (simp add: overlay_def)
qed

lemma overlay_long: "length ys \<le> length xs \<Longrightarrow> overlay xs ys = take (length ys) xs"
  by (simp add: overlay_def)

lemma overlay_short: "length xs \<le> length ys \<Longrightarrow> overlay xs ys = xs @ drop (length xs) ys"
  by (simp add: overlay_def)


lemma binary_pack:
  assumes "length val = 8" "l \<le> 8" "binary val" "binary bits"
  shows "binary (pack val l bits i)"
  using assms by (simp add: pack_eq binary_take binary_drop)

lemma image_ok_nth: "image_ok img \<Longrightarrow> p < length img \<Longrightarrow> b < length (img ! p) \<Longrightarrow> img ! p ! b < 256"
  by (simp add: image_ok_def list_all_length)

lemma length_setpx [simp]: "length (setpx img p b v) = length img"
  by (simp add: setpx_def)

lemma length_nth_setpx [simp]: "length (setpx img p b v ! q) = length (img ! q)"
proof (cases "p < length img")
  case True
  then show ?thesis by (cases "q = p") (simp_all add: setpx_def)
next
  case False
  then have "img[p := (img ! p)[b := v]] = img" by (intro list_update_beyond) simp
  then show ?thesis by (simp add: setpx_def)
qed

lemma nth_setpx:
  "p < length img \<Longrightarrow> b < length (img ! p) \<Longrightarrow>
   setpx img p b v ! q ! c = (if q = p \<and> c = b then v else img ! q ! c)"
  by (cases "q = p"; cases "c = b") (simp_all add: setpx_def)

lemma image_ok_setpx: "image_ok img \<Longrightarrow> v < 256 \<Longrightarrow> image_ok (setpx img p b v)"
proof -
  assume ok: "image_ok img" and v: "v < 256"
  have "list_all (\<lambda>v. v < 256) (setpx img p b v ! q)" if q: "q < length img" for q
  proof (cases "q = p")
    case True
    from ok q have "list_all (\<lambda>v. v < 256) (img ! p)"
      using True by (simp add: image_ok_def list_all_length)
    then have "list_all (\<lambda>v. v < 256) ((img ! p)[b := v])"
      using v set_update_subset_insert [of "img ! p" b v] by (auto simp: list_all_iff)
    with True q show ?thesis by (simp add: setpx_def)
  next
    case False
    with ok q show ?thesis by (simp add: setpx_def image_ok_def list_all_length)
  qed
  then show ?thesis by (simp add: image_ok_def list_all_length)
qed

lemma steps_ok_shape:
  "length img' = length img \<Longrightarrow> (\<And>q. length (img' ! q) = length (img ! q)) \<Longrightarrow>
   steps_ok img steps \<Longrightarrow> steps_ok img' steps"
  by (simp add: steps_ok_def)

lemma read_bits_cong:
  "(\<And>p b l. (p, b, l) \<in> set steps \<Longrightarrow> img' ! p ! b = img ! p ! b) \<Longrightarrow>
   read_bits img' steps = read_bits img steps"
  unfolding read_bits_def by (rule arg_cong [where f = concat], rule map_cong) auto

lemma read_bits_Cons:
  "read_bits img ((p, b, l) # rest) = last_n l (format_b (img ! p ! b)) @ read_bits img rest"
  by (simp add: read_bits_def)


lemma embed_loop_effect:
  assumes bits: "binary bits"
  shows "steps_ok img steps \<Longrightarrow> image_ok img \<Longrightarrow>
    \<exists>img'. embed_loop bits i img steps = Inr img'
      \<and> length img' = length img \<and> (\<forall>q. length (img' ! q) = length (img ! q))
      \<and> image_ok img'
      \<and> (\<forall>q c. (q, c) \<notin> set (map (\<lambda>(p, b, l). (p, b)) steps) \<longrightarrow> img' ! q ! c = img ! q ! c)
      \<and> read_bits img' steps = overlay (drop i bits) (read_bits img steps)"
proof (induction steps arbitrary: i img)
  case Nil
  then show ?case by (simp add: read_bits_def overlay_def)
next
  case (Cons step rest)
  obtain p b l where step: "step = (p, b, l)" by (cases step) auto
  from Cons.prems(1) step have rng: "p < length img" "b < length (img ! p)" "1 \<le> l" "l \<le> 8"
    and fresh: "(p, b) \<notin> set (map (\<lambda>(p, b, l). (p, b)) rest)"
    and rest_ok: "steps_ok img rest"
    by (auto simp: steps_ok_def B_def)
  show ?case
  proof (cases "i \<ge> length bits")
    case True
    with Cons.prems step show ?thesis by simp
  next
    case False
    define v where "v = img ! p ! b"
    define val where "val = format_b v"
    define pk where "pk = pack val l bits i"
    define img1 where "img1 = setpx img p b (bval pk)"
    have v: "v < 256" unfolding v_def using Cons.prems(2) rng by (intro image_ok_nth)
    have val: "length val = 8" "binary val" unfolding val_def using v by (simp_all add: length_format_b)
    have pk: "length pk = 8" "binary pk"
      unfolding pk_def using val rng bits by (simp_all add: length_pack binary_pack)
    then have pk_int: "int2 pk = Some (bval pk)" by (intro int2_Some) auto
    have n: "bval pk < 256" using bval_lt [of pk] pk by simp
    have ok1: "image_ok img1" unfolding img1_def using Cons.prems(2) n by (rule image_ok_setpx)
    have st1: "steps_ok img1 rest" unfolding img1_def by (rule steps_ok_shape [OF _ _ rest_ok]) simp_all
    from Cons.IH [OF st1 ok1, of "i + l"] obtain img' where
      run: "embed_loop bits (i + l) img1 rest = Inr img'"
      and len: "length img' = length img1" "\<forall>q. length (img' ! q) = length (img1 ! q)"
      and ok': "image_ok img'"
      and same: "\<forall>q c. (q, c) \<notin> set (map (\<lambda>(p, b, l). (p, b)) rest) \<longrightarrow> img' ! q ! c = img1 ! q ! c"
      and rd: "read_bits img' rest = overlay (drop (i + l) bits) (read_bits img1 rest)"
      by blast
    have get: "getpx img p b = Some v" using rng by (simp add: getpx_def v_def)
    have e: "embed_loop bits i img (step # rest) = Inr img'"
      using False step get pk_int run by (simp add: val_def pk_def img1_def)
    have at: "img' ! p ! b = bval pk"
      using same fresh rng by (simp add: img1_def nth_setpx)
    have rd1: "read_bits img1 rest = read_bits img rest"
    proof (rule read_bits_cong)
      fix q c k assume "(q, c, k) \<in> set rest"
      then have "(q, c) \<in> set (map (\<lambda>(p, b, l). (p, b)) rest)" by force
      with fresh have "(q, c) \<noteq> (p, b)" by metis
      then show "img1 ! q ! c = img ! q ! c" using rng by (auto simp: img1_def nth_setpx)
    qed
    have "read_bits img' (step # rest) = last_n l (format_b (bval pk)) @ read_bits img' rest"
      by (simp add: step read_bits_Cons at)
    also have "format_b (bval pk) = pk" using pk by (intro format_b_bval)
    also have "last_n l pk = take l (drop i bits) @ drop (length (drop i bits)) (last_n l val)"
      unfolding pk_def using val rng by (intro last_n_pack)
    also have "read_bits img' rest = overlay (drop l (drop i bits)) (read_bits img rest)"
      using rd rd1 by (simp add: add.commute)
    finally have "read_bits img' (step # rest)
        = overlay (drop i bits) (last_n l val @ read_bits img rest)"
      using val rng by (simp add: overlay_append [of _ "last_n l val"] length_last_n)
    then have r: "read_bits img' (step # rest) = overlay (drop i bits) (read_bits img (step # rest))"
      by (simp add: step read_bits_Cons val_def v_def)
    have u: "\<forall>q c. (q, c) \<notin> set (map (\<lambda>(p, b, l). (p, b)) (step # rest)) \<longrightarrow> img' ! q ! c = img ! q ! c"
      using same rng by (auto simp: step img1_def nth_setpx)
    from e len ok' u r show ?thesis by (simp add: img1_def)
  qed
qed

subsection \<open>The extraction loop and the bit stream\<close>

lemma binary_last_n: "binary s \<Longrightarrow> binary (last_n l s)"
  by (simp add: last_n_def slice_from_def binary_drop)

lemma scan_stop: "endswith message delim \<or> length s < 8 \<Longrightarrow> scan delim message s = message"
  by (subst scan.simps) (simp add: B_def)

lemma scan_step:
  "\<not> endswith message delim \<Longrightarrow> 8 \<le> length s \<Longrightarrow>
   scan delim message s = scan delim (message @ [char_of (bval (take 8 s))]) (drop 8 s)"
  by (subst scan.simps) (simp add: B_def)

lemma extract_step_eq:
  assumes "p < length img" "b < length (img ! p)"
  shows "extract_step img (acc, msg) (p, b, l) =
     (let bits' = acc @ last_n l (format_b (img ! p ! b))
      in if 8 \<le> length bits'
         then (case int2 (take 8 bits') of
                 None \<Rightarrow> Inl ValueError
               | Some n \<Rightarrow> Inr (drop 8 bits', msg @ [char_of n]))
         else Inr (bits', msg))"
  using assms by (simp add: extract_step_def getpx_def B_def slice_to_def slice_from_def Let_def split: option.split)

lemma extract_loop_scan:
  "steps_ok img steps \<Longrightarrow> image_ok img \<Longrightarrow> binary acc \<Longrightarrow> length acc < 8 \<Longrightarrow>
   extract_loop delim img (acc, msg) steps = Inr (scan delim msg (acc @ read_bits img steps))"
proof (induction steps arbitrary: acc msg)
  case Nil
  then show ?case by (simp add: read_bits_def scan_stop)
next
  case (Cons step rest)
  obtain p b l where step: "step = (p, b, l)" by (cases step) auto
  from Cons.prems(1) step have rng: "p < length img" "b < length (img ! p)" "1 \<le> l" "l \<le> 8"
    and rest_ok: "steps_ok img rest"
    by (auto simp: steps_ok_def B_def)
  show ?case
  proof (cases "endswith msg delim")
    case True
    then show ?thesis by (simp add: scan_stop)
  next
    case False
    define chunk where "chunk = last_n l (format_b (img ! p ! b))"
    define bits' where "bits' = acc @ chunk"
    have v: "img ! p ! b < 256" using Cons.prems(2) rng by (intro image_ok_nth)
    then have ch: "length chunk = l" "binary chunk"
      unfolding chunk_def using rng by (simp_all add: length_last_n length_format_b binary_last_n)
    have b': "binary bits'" "length bits' < 16"
      unfolding bits'_def using ch Cons.prems rng by simp_all
    have stream: "acc @ read_bits img (step # rest) = bits' @ read_bits img rest"
      by (simp add: step read_bits_Cons bits'_def chunk_def)
    show ?thesis
    proof (cases "8 \<le> length bits'")
      case True
      then have i2: "int2 (take 8 bits') = Some (bval (take 8 bits'))"
        using b' by (intro int2_Some) (auto simp: binary_take)
      have "extract_loop delim img (acc, msg) (step # rest)
          = extract_loop delim img (drop 8 bits', msg @ [char_of (bval (take 8 bits'))]) rest"
        using False True i2 rng
        by (simp add: step extract_step_eq bits'_def chunk_def Let_def)
      also have "\<dots> = Inr (scan delim (msg @ [char_of (bval (take 8 bits'))]) (drop 8 bits' @ read_bits img rest))"
        using b' by (intro Cons.IH rest_ok Cons.prems(2)) (simp_all add: binary_drop)
      also have "scan delim (msg @ [char_of (bval (take 8 bits'))]) (drop 8 bits' @ read_bits img rest)
          = scan delim msg (bits' @ read_bits img rest)"
        using False True by (subst (2) scan_step) simp_all
      finally show ?thesis by (simp add: stream)
    next
      case short: False
      have "extract_loop delim img (acc, msg) (step # rest) = extract_loop delim img (bits', msg) rest"
        using False short rng
        by (simp add: step extract_step_eq bits'_def chunk_def Let_def)
      also have "\<dots> = Inr (scan delim msg (bits' @ read_bits img rest))"
        using b' short by (intro Cons.IH rest_ok Cons.prems(2)) simp_all
      finally show ?thesis by (simp add: stream)
    qed
  qed
qed

lemma to_bits_Cons: "to_bits (c # X) = format_b (of_char c) @ to_bits X"
  by (simp add: to_bits_def)

lemma length_format_b_char: "length (format_b (of_char c)) = 8"
proof -
  have "(of_char c :: nat) < 256" by (rule nat_of_char_less_256)
  then show ?thesis by (rule length_format_b)
qed

lemma length_to_bits: "length (to_bits X) = 8 * length X"
  by (induction X) (simp_all add: to_bits_Cons length_format_b_char, simp add: to_bits_def)

lemma binary_to_bits: "binary (to_bits X)"
  by (induction X) (simp_all add: to_bits_Cons, simp add: to_bits_def)

lemma scan_framed:
  "(\<forall>k < length X. \<not> endswith (msg @ take k X) delim) \<Longrightarrow> endswith (msg @ X) delim \<Longrightarrow>
   scan delim msg (to_bits X @ G) = msg @ X"
proof (induction X arbitrary: msg)
  case Nil
  then show ?case by (simp add: scan_stop)
next
  case (Cons c X)
  from Cons.prems(1) have no: "\<not> endswith msg delim" by force
  have later: "\<forall>k < length X. \<not> endswith ((msg @ [c]) @ take k X) delim"
  proof (intro allI impI)
    fix k assume "k < length X"
    then have "Suc k < length (c # X)" by simp
    with Cons.prems(1) have "\<not> endswith (msg @ take (Suc k) (c # X)) delim" by blast
    then show "\<not> endswith ((msg @ [c]) @ take k X) delim" by simp
  qed
  have "scan delim msg (to_bits (c # X) @ G)
      = scan delim (msg @ [char_of (bval (format_b (of_char c :: nat)))]) (to_bits X @ G)"
    using no by (subst scan_step) (simp_all add: to_bits_Cons length_format_b_char)
  also have "\<dots> = scan delim (msg @ [c]) (to_bits X @ G)" by simp
  also have "\<dots> = (msg @ [c]) @ X"
    using later Cons.prems(2) by (intro Cons.IH) simp_all
  finally show ?case by simp
qed

subsection \<open>Traversals of well-formed pictures\<close>

lemma endswith_contains: "endswith s d \<Longrightarrow> contains s d"
proof (induction s)
  case Nil
  then show ?case by (simp add: endswith_def)
next
  case (Cons c s)
  show ?case
  proof (cases "length d \<le> length s")
    case True
    with Cons.prems have "endswith s d"
      by (simp add: endswith_def Suc_diff_le)
    with Cons.IH show ?thesis by simp
  next
    case False
    with Cons.prems have "d = c # s" by (simp add: endswith_def le_Suc_eq)
    then show ?thesis by simp
  qed
qed

lemma endswith_append [simp]: "endswith (m @ d) d"
  by (simp add: endswith_def)

lemma removesuffix_append [simp]: "removesuffix (m @ d) d = m"
  by (simp add: removesuffix_def)

lemma length_read_bits:
  "steps_ok img steps \<Longrightarrow> image_ok img \<Longrightarrow>
   length (read_bits img steps) = sum_list (map (\<lambda>(p, b, l). l) steps)"
proof (induction steps)
  case Nil
  then show ?case by (simp add: read_bits_def)
next
  case (Cons step rest)
  obtain p b l where step: "step = (p, b, l)" by (cases step) auto
  from Cons.prems(1) step have rng: "p < length img" "b < length (img ! p)" "1 \<le> l" "l \<le> 8"
    and rest_ok: "steps_ok img rest"
    by (auto simp: steps_ok_def B_def)
  have "img ! p ! b < 256" using Cons.prems(2) rng by (intro image_ok_nth)
  then have "length (last_n l (format_b (img ! p ! b))) = l"
    using rng by (simp add: length_last_n length_format_b)
  with Cons.IH [OF rest_ok Cons.prems(2)] show ?case
    by (simp add: step read_bits_Cons)
qed

lemma sum_product:
  fixes pixels :: "nat list" and bl :: "(nat \<times> nat) list"
  shows "sum_list (map (\<lambda>(p, b, l). l) (List.product pixels bl)) = length pixels * sum_list (map snd bl)"
proof (induction pixels)
  case Nil
  then show ?case by simp
next
  case (Cons x xs)
  have "(\<lambda>(p, b, l). l) \<circ> Pair x = (snd :: nat \<times> nat \<Rightarrow> nat)"
    by (auto simp: fun_eq_iff)
  with Cons show ?case by simp
qed

lemma map_pos_product:
  "map (\<lambda>(p, b, l). (p, b)) (List.product pixels bl) = List.product pixels (map fst bl)"
  by (induction pixels) (simp_all add: case_prod_unfold comp_def)

lemma steps_ok_product:
  assumes "picture_ok chans pic" "alloc_ok chans bl" "order_ok (pixel pic) pixels"
  shows "steps_ok (imagedata pic) (List.product pixels bl)"
proof -
  have d: "distinct (List.product pixels (map fst bl))"
    using assms by (intro distinct_product) (simp_all add: alloc_ok_def order_ok_def)
  have "p < length (imagedata pic) \<and> b < length (imagedata pic ! p) \<and> 1 \<le> l \<and> l \<le> B"
    if "(p, b, l) \<in> set (List.product pixels bl)" for p b l
  proof -
    from that have p: "p \<in> set pixels" and bl: "(b, l) \<in> set bl" by auto
    from p assms(1,3) have pl: "p < length (imagedata pic)"
      by (simp add: order_ok_def picture_ok_def list_all_iff)
    with assms(1) have "length (imagedata pic ! p) = chans"
      by (simp add: picture_ok_def list_all_length)
    with bl assms(2) pl show ?thesis
      by (auto simp: alloc_ok_def list_all_iff)
  qed
  then have "list_all (\<lambda>(p, b, l). p < length (imagedata pic) \<and> b < length (imagedata pic ! p) \<and> 1 \<le> l \<and> l \<le> B)
      (List.product pixels bl)"
    unfolding list_all_iff by blast
  with d show ?thesis by (simp add: steps_ok_def map_pos_product)
qed

lemma image_ok_picture: "picture_ok chans pic \<Longrightarrow> image_ok (imagedata pic)"
  by (auto simp: picture_ok_def image_ok_def list_all_iff)

lemma mod_image_ok: "image_ok img \<Longrightarrow> map (map (\<lambda>v. v mod 256)) img = img"
  by (auto simp: image_ok_def list_all_iff intro!: map_idI)

lemma order_ok_pixel_order:
  "(seed \<noteq> [] \<Longrightarrow> order_ok P (shuffle seed [0..<P])) \<Longrightarrow> order_ok P (pixel_order shuffle P seed)"
  by (auto simp: pixel_order_def order_ok_def list_all_iff)

lemma capacity_bits:
  assumes "int n \<le> limit_of P bl delim"
  shows "8 * (n + length delim) \<le> P * sum_list (map snd bl)"
proof -
  define S where "S = sum_list (map snd bl)"
  from assms have "int (n + length delim) \<le> int (P * S) div 8"
    by (simp add: limit_of_def B_def S_def)
  then have "int (n + length delim) \<le> int ((P * S) div 8)"
    by (simp add: zdiv_int)
  then have "n + length delim \<le> (P * S) div 8" by linarith
  then have "8 * (n + length delim) \<le> P * S"
    by (simp add: less_eq_div_iff_mult_less_eq mult.commute)
  then show ?thesis by (simp add: S_def)
qed

subsection \<open>Round trip\<close>

lemma roundtrip_general:
  assumes pic: "picture_ok chans pic"
      and al: "alloc_ok chans (band_lsb glob)"
      and ord: "order_ok (pixel pic) (pixel_order shuffle (pixel pic) seed)"
      and cap: "int (length M) \<le> limit_of (pixel pic) (band_lsb glob) delim"
      and first: "delimiter_first delim M"
  shows "\<exists>img'. embed delim shuffle seed M pic glob = Inr img'
           \<and> picture_ok chans (pic\<lparr>imagedata := img'\<rparr>)
           \<and> extract_msg delim shuffle seed (pic\<lparr>imagedata := img'\<rparr>) glob = Inr M"
proof -
  define pixels where "pixels = pixel_order shuffle (pixel pic) seed"
  define steps where "steps = List.product pixels (band_lsb glob)"
  define img where "img = imagedata pic"
  define bits where "bits = to_bits (M @ delim)"
  have so: "steps_ok img steps"
    unfolding steps_def img_def pixels_def using pic al ord by (rule steps_ok_product)
  have io: "image_ok img" unfolding img_def using pic by (rule image_ok_picture)
  from embed_loop_effect [OF binary_to_bits so io, of "M @ delim" 0]
  obtain img' where
    run: "embed_loop bits 0 img steps = Inr img'"
    and len: "length img' = length img" "\<forall>q. length (img' ! q) = length (img ! q)"
    and ok': "image_ok img'"
    and rd: "read_bits img' steps = overlay bits (read_bits img steps)"
    unfolding bits_def by auto
  have "length (read_bits img steps) = length pixels * sum_list (map snd (band_lsb glob))"
    using so io by (simp add: length_read_bits steps_def sum_product)
  moreover have "length pixels = pixel pic" using ord by (simp add: order_ok_def pixels_def)
  moreover have "length bits = 8 * (length M + length delim)"
    by (simp add: bits_def length_to_bits)
  ultimately have "length bits \<le> length (read_bits img steps)"
    using capacity_bits [OF cap] by simp
  then have stream: "read_bits img' steps = to_bits (M @ delim) @ drop (length bits) (read_bits img steps)"
    using rd by (simp add: overlay_short bits_def)
  have e: "embed delim shuffle seed M pic glob = Inr img'"
    using run ok'
    by (simp add: embed_def Let_def bits_def img_def steps_def pixels_def mod_image_ok)
  have so': "steps_ok img' steps" using len so by (intro steps_ok_shape [of img' img]) simp_all
  have fst: "\<forall>k < length (M @ delim). \<not> endswith ([] @ take k (M @ delim)) delim"
    using first by (simp add: delimiter_first_def list_all_iff)
  have "extract_loop delim img' ([], []) steps = Inr (scan delim [] ([] @ read_bits img' steps))"
    using so' ok' by (intro extract_loop_scan) simp_all
  also have "scan delim [] ([] @ read_bits img' steps) = [] @ (M @ delim)"
    unfolding stream append_Nil
    by (rule scan_framed [of "M @ delim" "[]", unfolded append_Nil]) (use fst in simp_all)
  finally have x: "extract_loop delim img' ([], []) steps = Inr (M @ delim)" by simp
  have ex: "extract_msg delim shuffle seed (pic\<lparr>imagedata := img'\<rparr>) glob = Inr M"
    using x by (simp add: extract_msg_def Let_def steps_def pixels_def endswith_contains)
  have pok: "picture_ok chans (pic\<lparr>imagedata := img'\<rparr>)"
  proof -
    have "length (img' ! q) = chans" if "q < length img'" for q
      using that len pic by (simp add: picture_ok_def img_def list_all_length)
    moreover have "list_all (\<lambda>v. v < 256) (img' ! q)" if "q < length img'" for q
      using that ok' by (simp add: image_ok_def list_all_length)
    ultimately show ?thesis
      using len pic by (simp add: picture_ok_def img_def list_all_length)
  qed
  from e pok ex show ?thesis by blast
qed

subsection \<open>The embedding step and overflow\<close>

lemma bval_div: "bval (a @ b) div 2 ^ length b = bval a"
  using bval_lt [of b] by (simp add: bval_append)

lemma bval_mod: "bval (a @ b) mod 2 ^ length b = bval b"
  using bval_lt [of b] by (simp add: bval_append)

lemma embed_loop_step:
  assumes "getpx img pix band = Some v" "i < length bits"
      and "int2 (pack (format_b v) lsb bits i) = Some n"
  shows "embed_loop bits i img ((pix, band, lsb) # rest)
       = embed_loop bits (i + lsb) (setpx img pix band n) rest"
  using assms by simp

lemma embed_loop_done: "length bits \<le> i \<Longrightarrow> embed_loop bits i img steps = Inr img"
  by (cases steps) auto

lemma pack_int2:
  assumes "v < 256" "lsb \<le> 8" "binary bits"
  shows "length (pack (format_b v) lsb bits i) = 8"
    and "int2 (pack (format_b v) lsb bits i) = Some (bval (pack (format_b v) lsb bits i))"
    and "bval (pack (format_b v) lsb bits i) < 256"
proof -
  let ?pk = "pack (format_b v) lsb bits i"
  show len: "length ?pk = 8" using assms by (simp add: length_pack length_format_b)
  have "binary ?pk" using assms by (simp add: binary_pack length_format_b)
  with len show "int2 ?pk = Some (bval ?pk)" by (intro int2_Some) auto
  show "bval ?pk < 256" using bval_lt [of ?pk] len by simp
qed

lemma pack_full:
  assumes v: "v < 256" and l: "lsb \<le> 8" and fits: "i + lsb \<le> length bits"
  shows "bval (pack (format_b v) lsb bits i) div 2 ^ lsb = v div 2 ^ lsb"
    and "bval (pack (format_b v) lsb bits i) mod 2 ^ lsb = bval (slice bits i (i + lsb))"
proof -
  define val where "val = format_b v"
  define u where "u = slice bits i (i + lsb)"
  have val: "length val = 8" "bval val = v" using v by (simp_all add: val_def length_format_b)
  have u: "length u = lsb" "u = take lsb (drop i bits)" using fits by (simp_all add: u_def slice_def)
  have pk: "pack (format_b v) lsb bits i = take (8 - lsb) val @ u"
    using val l fits u unfolding val_def by (simp add: pack_eq min_def)
  have "bval (take (8 - lsb) val @ drop (8 - lsb) val) div 2 ^ length (drop (8 - lsb) val)
      = bval (take (8 - lsb) val)"
    by (rule bval_div)
  then have hi: "v div 2 ^ lsb = bval (take (8 - lsb) val)" using val l by simp
  have "bval (take (8 - lsb) val @ u) div 2 ^ length u = bval (take (8 - lsb) val)"
    by (rule bval_div)
  with hi u(1) show "bval (pack (format_b v) lsb bits i) div 2 ^ lsb = v div 2 ^ lsb"
    unfolding pk by simp
  have "bval (take (8 - lsb) val @ u) mod 2 ^ length u = bval u" by (rule bval_mod)
  with u(1) show "bval (pack (format_b v) lsb bits i) mod 2 ^ lsb = bval (slice bits i (i + lsb))"
    unfolding pk by (simp add: u_def)
qed

lemma pack_partial:
  assumes v: "v < 256" and l: "lsb \<le> 8" and i: "i < length bits" and r: "length bits - i < lsb"
  shows "bval (pack (format_b v) lsb bits i) div 2 ^ lsb = v div 2 ^ lsb"
    and "bval (pack (format_b v) lsb bits i) mod 2 ^ (lsb - (length bits - i)) = v mod 2 ^ (lsb - (length bits - i))"
    and "bval (pack (format_b v) lsb bits i) div 2 ^ (lsb - (length bits - i)) mod 2 ^ (length bits - i)
         = bval (drop i bits)"
proof -
  define val where "val = format_b v"
  define r where "r = length bits - i"
  define A where "A = take (8 - lsb) val"
  define Mid where "Mid = take r (drop (8 - lsb) val)"
  define L where "L = drop (8 - lsb + r) val"
  define u where "u = drop i bits"
  have val: "length val = 8" "bval val = v" using v by (simp_all add: val_def length_format_b)
  have rr: "0 < r" "r < lsb" using i r by (simp_all add: r_def)
  have lens: "length A = 8 - lsb" "length Mid = r" "length L = lsb - r" "length u = r"
    using val l rr by (simp_all add: A_def Mid_def L_def u_def r_def)
  have split: "val = (A @ Mid) @ L"
    unfolding A_def Mid_def L_def
    by (metis append_take_drop_id append.assoc drop_drop add.commute)
  have "take lsb (drop i bits) = drop i bits" using r by simp
  then have pk: "pack val lsb bits i = (A @ u) @ L"
    using val l rr unfolding A_def L_def u_def r_def by (simp add: pack_eq min_def)
  have v1: "v div 2 ^ (lsb - r) = bval (A @ Mid)" "v mod 2 ^ (lsb - r) = bval L"
    using bval_div [of "A @ Mid" L] bval_mod [of "A @ Mid" L] lens val split by simp_all
  have n1: "bval (pack val lsb bits i) div 2 ^ (lsb - r) = bval (A @ u)"
    "bval (pack val lsb bits i) mod 2 ^ (lsb - r) = bval L"
    using bval_div [of "A @ u" L] bval_mod [of "A @ u" L] lens pk by simp_all
  have pw: "(2::nat) ^ lsb = 2 ^ (lsb - r) * 2 ^ r"
    using rr by (simp add: power_add [symmetric])
  have "v div 2 ^ lsb = v div 2 ^ (lsb - r) div 2 ^ r"
    unfolding pw by (simp add: div_mult2_eq)
  also have "\<dots> = bval A" using v1 bval_div [of A Mid] lens by simp
  finally have vA: "v div 2 ^ lsb = bval A" .
  have "bval (pack val lsb bits i) div 2 ^ lsb = bval (pack val lsb bits i) div 2 ^ (lsb - r) div 2 ^ r"
    unfolding pw by (simp add: div_mult2_eq)
  also have "\<dots> = bval A" using n1 bval_div [of A u] lens by simp
  finally show "bval (pack (format_b v) lsb bits i) div 2 ^ lsb = v div 2 ^ lsb"
    using vA by (simp add: val_def)
  show "bval (pack (format_b v) lsb bits i) mod 2 ^ (lsb - (length bits - i)) = v mod 2 ^ (lsb - (length bits - i))"
    using n1 v1 by (simp add: val_def r_def)
  show "bval (pack (format_b v) lsb bits i) div 2 ^ (lsb - (length bits - i)) mod 2 ^ (length bits - i)
         = bval (drop i bits)"
    using n1 bval_mod [of A u] lens by (simp add: val_def r_def u_def)
qed


lemma embed_effect:
  assumes pic: "picture_ok chans pic"
      and al: "alloc_ok chans (band_lsb glob)"
      and ord: "order_ok (pixel pic) (pixel_order shuffle (pixel pic) seed)"
  shows "\<exists>img'. embed delim shuffle seed M pic glob = Inr img'
           \<and> length img' = length (imagedata pic)
           \<and> read_bits img' (List.product (pixel_order shuffle (pixel pic) seed) (band_lsb glob))
               = overlay (to_bits (M @ delim))
                   (read_bits (imagedata pic) (List.product (pixel_order shuffle (pixel pic) seed) (band_lsb glob)))
           \<and> length (read_bits (imagedata pic) (List.product (pixel_order shuffle (pixel pic) seed) (band_lsb glob)))
               = pixel pic * sum_list (map snd (band_lsb glob))"
proof -
  define steps where "steps = List.product (pixel_order shuffle (pixel pic) seed) (band_lsb glob)"
  have so: "steps_ok (imagedata pic) steps"
    unfolding steps_def using pic al ord by (rule steps_ok_product)
  have io: "image_ok (imagedata pic)" using pic by (rule image_ok_picture)
  from embed_loop_effect [OF binary_to_bits so io, of "M @ delim" 0]
  obtain img' where
    run: "embed_loop (to_bits (M @ delim)) 0 (imagedata pic) steps = Inr img'"
    and len: "length img' = length (imagedata pic)"
    and ok': "image_ok img'"
    and rd: "read_bits img' steps = overlay (to_bits (M @ delim)) (read_bits (imagedata pic) steps)"
    by auto
  have e: "embed delim shuffle seed M pic glob = Inr img'"
    using run ok' by (simp add: embed_def Let_def steps_def mod_image_ok)
  have "length (read_bits (imagedata pic) steps)
      = length (pixel_order shuffle (pixel pic) seed) * sum_list (map snd (band_lsb glob))"
    using so io by (simp add: length_read_bits steps_def sum_product)
  then have "length (read_bits (imagedata pic) steps) = pixel pic * sum_list (map snd (band_lsb glob))"
    using ord by (simp add: order_ok_def)
  with e len rd show ?thesis unfolding steps_def by blast
qed

lemma getpx_setpx_same:
  "getpx img p b = Some v \<Longrightarrow> getpx (setpx img p b n) p b = Some n"
  by (auto simp: getpx_def nth_setpx split: if_splits)

lemma getpx_setpx_other:
  "getpx img p b = Some v \<Longrightarrow> (q, c) \<noteq> (p, b) \<Longrightarrow> getpx (setpx img p b n) q c = getpx img q c"
  by (auto simp: getpx_def nth_setpx split: if_splits)

text \<open>
  C5.  An embedding step that still has \<open>lsb\<close> message bits to take writes into its
  channel a value that keeps the high \<open>8 - lsb\<close> bits of the old one and has the next
  \<open>lsb\<close> message bits as its low \<open>lsb\<close> bits: the image the loop goes on with (and
  returns, when the step is the last of the traversal) holds that value in the channel
  and is the old image everywhere else.  Once the cursor is at or beyond the end of the
  bit string the loop returns the image as it is, whatever remains of the traversal.
\<close>

theorem embed_step:
  assumes "getpx img pix band = Some v" and "v < 256" and "lsb \<le> 8" and "binary bits"
      and "i < length bits" and "i + lsb \<le> length bits"
  shows "(\<exists>n. int2 (pack (format_b v) lsb bits i) = Some n
            \<and> embed_loop bits i img ((pix, band, lsb) # rest)
                = embed_loop bits (i + lsb) (setpx img pix band n) rest
            \<and> embed_loop bits i img [(pix, band, lsb)] = Inr (setpx img pix band n)
            \<and> getpx (setpx img pix band n) pix band = Some n
            \<and> length (setpx img pix band n) = length img
            \<and> (\<forall>q c. (q, c) \<noteq> (pix, band) \<longrightarrow> getpx (setpx img pix band n) q c = getpx img q c)
            \<and> n div 2 ^ lsb = v div 2 ^ lsb
            \<and> n mod 2 ^ lsb = bval (slice bits i (i + lsb)))
         \<and> embed_loop bits (length bits + k) img' steps = Inr img'"
proof -
  let ?n = "bval (pack (format_b v) lsb bits i)"
  have i2: "int2 (pack (format_b v) lsb bits i) = Some ?n"
    using assms(2,3,4) by (rule pack_int2)
  have step: "embed_loop bits i img ((pix, band, lsb) # rest)
      = embed_loop bits (i + lsb) (setpx img pix band ?n) rest"
    using assms(1,5) i2 by (rule embed_loop_step)
  have "embed_loop bits i img [(pix, band, lsb)] = embed_loop bits (i + lsb) (setpx img pix band ?n) []"
    using assms(1,5) i2 by (rule embed_loop_step)
  then have one: "embed_loop bits i img [(pix, band, lsb)] = Inr (setpx img pix band ?n)" by simp
  have same: "getpx (setpx img pix band ?n) pix band = Some ?n"
    using assms(1) by (rule getpx_setpx_same)
  have len: "length (setpx img pix band ?n) = length img" by simp
  have other: "\<forall>q c. (q, c) \<noteq> (pix, band) \<longrightarrow> getpx (setpx img pix band ?n) q c = getpx img q c"
    using assms(1) by (blast intro: getpx_setpx_other)
  have vals: "?n div 2 ^ lsb = v div 2 ^ lsb" "?n mod 2 ^ lsb = bval (slice bits i (i + lsb))"
    using assms(2,3,6) by (rule pack_full)+
  have fin: "embed_loop bits (length bits + k) img' steps = Inr img'"
    by (rule embed_loop_done) simp
  from i2 step one same len other vals have ex:
    "\<exists>n. int2 (pack (format_b v) lsb bits i) = Some n
            \<and> embed_loop bits i img ((pix, band, lsb) # rest)
                = embed_loop bits (i + lsb) (setpx img pix band n) rest
            \<and> embed_loop bits i img [(pix, band, lsb)] = Inr (setpx img pix band n)
            \<and> getpx (setpx img pix band n) pix band = Some n
            \<and> length (setpx img pix band n) = length img
            \<and> (\<forall>q c. (q, c) \<noteq> (pix, band) \<longrightarrow> getpx (setpx img pix band n) q c = getpx img q c)
            \<and> n div 2 ^ lsb = v div 2 ^ lsb
            \<and> n mod 2 ^ lsb = bval (slice bits i (i + lsb))"
    by (intro exI [of _ ?n] conjI)
  from ex fin show ?thesis by (rule conjI)
qed

theorem embed_step_witness:
  "getpx [[255, 254, 7]] 0 0 = Some 255 \<and> (255::nat) < 256 \<and> (3::nat) \<le> 8 \<and> binary ''0101''
   \<and> (0::nat) < length ''0101'' \<and> (0::nat) + 3 \<le> length ''0101''
   \<and> (\<exists>n. int2 (pack (format_b 255) 3 ''0101'' 0) = Some n
            \<and> embed_loop ''0101'' 0 [[255, 254, 7]] ((0, 0, 3) # [(0, 1, 2)])
                = embed_loop ''0101'' (0 + 3) (setpx [[255, 254, 7]] 0 0 n) [(0, 1, 2)]
            \<and> embed_loop ''0101'' 0 [[255, 254, 7]] [(0, 0, 3)] = Inr (setpx [[255, 254, 7]] 0 0 n)
            \<and> getpx (setpx [[255, 254, 7]] 0 0 n) 0 0 = Some n
            \<and> length (setpx [[255, 254, 7]] 0 0 n) = length [[255, 254, 7 :: nat]]
            \<and> (\<forall>q c. (q, c) \<noteq> (0, 0) \<longrightarrow> getpx (setpx [[255, 254, 7]] 0 0 n) q c = getpx [[255, 254, 7]] q c)
            \<and> n div 2 ^ 3 = 255 div 2 ^ 3
            \<and> n mod 2 ^ 3 = bval (slice ''0101'' 0 (0 + 3)))
   \<and> embed_loop ''0101'' (length ''0101'' + 0) [[1, 2, 3]] [(0, 1, 2)] = Inr [[1, 2, 3]]
   \<and> int2 (pack (format_b 255) 3 ''0101'' 0) = Some 250
   \<and> embed_loop ''0101'' 0 [[255, 254, 7]] [(0, 0, 3)] = Inr [[250, 254, 7]]
   \<and> embed_loop ''0101'' 0 [[255, 254, 7]] ((0, 0, 3) # [(0, 1, 2)]) = Inr [[250, 254, 7]]"
proof -
  have h1: "getpx [[255, 254, 7]] 0 0 = Some 255" by code_simp
  have h2: "(255::nat) < 256" by simp
  have h3: "(3::nat) \<le> 8" by simp
  have h4: "binary ''0101''" by code_simp
  have h5: "(0::nat) < length ''0101''" by simp
  have h6: "(0::nat) + 3 \<le> length ''0101''" by simp
  have c1: "int2 (pack (format_b 255) 3 ''0101'' 0) = Some 250" by code_simp
  have c2: "embed_loop ''0101'' 0 [[255, 254, 7]] [(0, 0, 3)] = Inr [[250, 254, 7]]" by code_simp
  have c3: "embed_loop ''0101'' 0 [[255, 254, 7]] ((0, 0, 3) # [(0, 1, 2)]) = Inr [[250, 254, 7]]"
    by code_simp
  note t = embed_step [OF h1 h2 h3 h4 h5 h6, of "[(0, 1, 2)]" 0 "[[1, 2, 3]]" "[(0, 1, 2)]"]
  show ?thesis
    by (intro conjI h1 h2 h3 h4 h5 h6 c1 c2 c3 conjunct1 [OF t] conjunct2 [OF t])
qed

text \<open>
  C10.  At a last step with \<open>r\<close> message bits left, \<open>0 < r < lsb\<close>, the loop ends with
  the image that holds the new value in the step's channel and is the old image
  everywhere else; the new value keeps the high \<open>8 - lsb\<close> bits and the low \<open>lsb - r\<close>
  bits of the old one, and the \<open>r\<close> bits between them are the message bits.  Whatever
  the cursor, the packed string of a byte has length 8 and the value written is a byte.
\<close>

theorem embed_last_step:
  assumes "getpx img pix band = Some v" and "v < 256" and "lsb \<le> 8" and "binary bits"
      and "i < length bits" and "length bits - i < lsb"
  shows "(\<exists>n. int2 (pack (format_b v) lsb bits i) = Some n
            \<and> embed_loop bits i img ((pix, band, lsb) # rest) = Inr (setpx img pix band n)
            \<and> getpx (setpx img pix band n) pix band = Some n
            \<and> length (setpx img pix band n) = length img
            \<and> (\<forall>q c. (q, c) \<noteq> (pix, band) \<longrightarrow> getpx (setpx img pix band n) q c = getpx img q c)
            \<and> n div 2 ^ lsb = v div 2 ^ lsb
            \<and> n mod 2 ^ (lsb - (length bits - i)) = v mod 2 ^ (lsb - (length bits - i))
            \<and> n div 2 ^ (lsb - (length bits - i)) mod 2 ^ (length bits - i) = bval (drop i bits))
         \<and> length (pack (format_b v) lsb bits j) = 8
         \<and> int2 (pack (format_b v) lsb bits j) = Some (bval (pack (format_b v) lsb bits j))
         \<and> bval (pack (format_b v) lsb bits j) < 256"
proof -
  let ?n = "bval (pack (format_b v) lsb bits i)"
  have i2: "int2 (pack (format_b v) lsb bits i) = Some ?n"
    using assms(2,3,4) by (rule pack_int2)
  have "embed_loop bits i img ((pix, band, lsb) # rest)
      = embed_loop bits (i + lsb) (setpx img pix band ?n) rest"
    using assms(1,5) i2 by (rule embed_loop_step)
  also have "\<dots> = Inr (setpx img pix band ?n)"
    using assms(6) by (intro embed_loop_done) simp
  finally have run: "embed_loop bits i img ((pix, band, lsb) # rest) = Inr (setpx img pix band ?n)" .
  have same: "getpx (setpx img pix band ?n) pix band = Some ?n"
    using assms(1) by (rule getpx_setpx_same)
  have len: "length (setpx img pix band ?n) = length img" by simp
  have other: "\<forall>q c. (q, c) \<noteq> (pix, band) \<longrightarrow> getpx (setpx img pix band ?n) q c = getpx img q c"
    using assms(1) by (blast intro: getpx_setpx_other)
  have vals: "?n div 2 ^ lsb = v div 2 ^ lsb"
    "?n mod 2 ^ (lsb - (length bits - i)) = v mod 2 ^ (lsb - (length bits - i))"
    "?n div 2 ^ (lsb - (length bits - i)) mod 2 ^ (length bits - i) = bval (drop i bits)"
    using assms(2,3,5,6) by (rule pack_partial)+
  have any: "length (pack (format_b v) lsb bits j) = 8"
    "int2 (pack (format_b v) lsb bits j) = Some (bval (pack (format_b v) lsb bits j))"
    "bval (pack (format_b v) lsb bits j) < 256"
    using assms(2,3,4) by (rule pack_int2)+
  from i2 run same len other vals have
    "\<exists>n. int2 (pack (format_b v) lsb bits i) = Some n
            \<and> embed_loop bits i img ((pix, band, lsb) # rest) = Inr (setpx img pix band n)
            \<and> getpx (setpx img pix band n) pix band = Some n
            \<and> length (setpx img pix band n) = length img
            \<and> (\<forall>q c. (q, c) \<noteq> (pix, band) \<longrightarrow> getpx (setpx img pix band n) q c = getpx img q c)
            \<and> n div 2 ^ lsb = v div 2 ^ lsb
            \<and> n mod 2 ^ (lsb - (length bits - i)) = v mod 2 ^ (lsb - (length bits - i))
            \<and> n div 2 ^ (lsb - (length bits - i)) mod 2 ^ (length bits - i) = bval (drop i bits)"
    by (intro exI [of _ ?n] conjI)
  with any show ?thesis by (intro conjI)
qed

theorem embed_last_step_witness:
  "getpx [[255, 254, 7]] 0 0 = Some 255 \<and> (255::nat) < 256 \<and> (3::nat) \<le> 8 \<and> binary ''0100''
   \<and> (2::nat) < length ''0100'' \<and> length ''0100'' - 2 < (3::nat)
   \<and> (\<exists>n. int2 (pack (format_b 255) 3 ''0100'' 2) = Some n
            \<and> embed_loop ''0100'' 2 [[255, 254, 7]] ((0, 0, 3) # [(0, 1, 2)]) = Inr (setpx [[255, 254, 7]] 0 0 n)
            \<and> getpx (setpx [[255, 254, 7]] 0 0 n) 0 0 = Some n
            \<and> length (setpx [[255, 254, 7]] 0 0 n) = length [[255, 254, 7 :: nat]]
            \<and> (\<forall>q c. (q, c) \<noteq> (0, 0) \<longrightarrow> getpx (setpx [[255, 254, 7]] 0 0 n) q c = getpx [[255, 254, 7]] q c)
            \<and> n div 2 ^ 3 = 255 div 2 ^ 3
            \<and> n mod 2 ^ (3 - (length ''0100'' - 2)) = 255 mod 2 ^ (3 - (length ''0100'' - 2))
            \<and> n div 2 ^ (3 - (length ''0100'' - 2)) mod 2 ^ (length ''0100'' - 2) = bval (drop 2 ''0100''))
   \<and> length (pack (format_b 255) 3 ''0100'' 1) = 8
   \<and> int2 (pack (format_b 255) 3 ''0100'' 1) = Some (bval (pack (format_b 255) 3 ''0100'' 1))
   \<and> bval (pack (format_b 255) 3 ''0100'' 1) < 256
   \<and> int2 (pack (format_b 255) 3 ''0100'' 2) = Some 249
   \<and> embed_loop ''0100'' 2 [[255, 254, 7]] ((0, 0, 3) # [(0, 1, 2)]) = Inr [[249, 254, 7]]"
proof -
  have h1: "getpx [[255, 254, 7]] 0 0 = Some 255" by code_simp
  have h2: "(255::nat) < 256" by simp
  have h3: "(3::nat) \<le> 8" by simp
  have h4: "binary ''0100''" by code_simp
  have h5: "(2::nat) < length ''0100''" by simp
  have h6: "length ''0100'' - 2 < (3::nat)" by simp
  have c1: "int2 (pack (format_b 255) 3 ''0100'' 2) = Some 249" by code_simp
  have c2: "embed_loop ''0100'' 2 [[255, 254, 7]] ((0, 0, 3) # [(0, 1, 2)]) = Inr [[249, 254, 7]]"
    by code_simp
  note t = embed_last_step [OF h1 h2 h3 h4 h5 h6, of "[(0, 1, 2)]" 1]
  from t have t1: "\<exists>n. int2 (pack (format_b 255) 3 ''0100'' 2) = Some n
            \<and> embed_loop ''0100'' 2 [[255, 254, 7]] ((0, 0, 3) # [(0, 1, 2)]) = Inr (setpx [[255, 254, 7]] 0 0 n)
            \<and> getpx (setpx [[255, 254, 7]] 0 0 n) 0 0 = Some n
            \<and> length (setpx [[255, 254, 7]] 0 0 n) = length [[255, 254, 7 :: nat]]
            \<and> (\<forall>q c. (q, c) \<noteq> (0, 0) \<longrightarrow> getpx (setpx [[255, 254, 7]] 0 0 n) q c = getpx [[255, 254, 7]] q c)
            \<and> n div 2 ^ 3 = 255 div 2 ^ 3
            \<and> n mod 2 ^ (3 - (length ''0100'' - 2)) = 255 mod 2 ^ (3 - (length ''0100'' - 2))
            \<and> n div 2 ^ (3 - (length ''0100'' - 2)) mod 2 ^ (length ''0100'' - 2) = bval (drop 2 ''0100'')"
    by (rule conjunct1)
  from t have t2: "length (pack (format_b 255) 3 ''0100'' 1) = 8"
    "int2 (pack (format_b 255) 3 ''0100'' 1) = Some (bval (pack (format_b 255) 3 ''0100'' 1))"
    "bval (pack (format_b 255) 3 ''0100'' 1) < 256"
    by blast+
  show ?thesis by (intro conjI h1 h2 h3 h4 h5 h6 c1 c2 t1 t2)
qed

text \<open>
  C6.  When the framed bit string is longer than the bits the traversal offers (pixel
  count times the allocated bits per pixel), embedding raises nothing: it returns an
  image whose traversal reads exactly the first \<open>P * S\<close> bits of the string; the bits
  beyond are dropped.
\<close>

theorem embed_overflow:
  assumes "picture_ok chans pic"
      and "alloc_ok chans (band_lsb glob)"
      and "order_ok (pixel pic) (pixel_order shuffle (pixel pic) seed)"
      and "pixel pic * sum_list (map snd (band_lsb glob)) < length (to_bits (M @ delim))"
  shows "\<exists>img'. embed delim shuffle seed M pic glob = Inr img'
           \<and> length img' = length (imagedata pic)
           \<and> read_bits img' (List.product (pixel_order shuffle (pixel pic) seed) (band_lsb glob))
               = take (pixel pic * sum_list (map snd (band_lsb glob))) (to_bits (M @ delim))"
proof -
  from embed_effect [OF assms(1-3), of delim M] obtain img' where
    e: "embed delim shuffle seed M pic glob = Inr img'" "length img' = length (imagedata pic)"
    and rd: "read_bits img' (List.product (pixel_order shuffle (pixel pic) seed) (band_lsb glob))
               = overlay (to_bits (M @ delim))
                   (read_bits (imagedata pic) (List.product (pixel_order shuffle (pixel pic) seed) (band_lsb glob)))"
    and len: "length (read_bits (imagedata pic) (List.product (pixel_order shuffle (pixel pic) seed) (band_lsb glob)))
               = pixel pic * sum_list (map snd (band_lsb glob))"
    by blast
  from rd len assms(4) have
    "read_bits img' (List.product (pixel_order shuffle (pixel pic) seed) (band_lsb glob))
       = take (pixel pic * sum_list (map snd (band_lsb glob))) (to_bits (M @ delim))"
    by (simp add: overlay_long)
  with e show ?thesis by blast
qed

theorem embed_overflow_witness:
  "picture_ok 3 \<lparr>pixel = 2, imagedata = [[7, 7, 7], [8, 8, 8]]\<rparr>
   \<and> alloc_ok 3 [(0, 1), (2, 2)]
   \<and> order_ok 2 (pixel_order (\<lambda>s xs. rev xs) 2 ''k'')
   \<and> 2 * sum_list (map snd [(0 :: nat, 1 :: nat), (2, 2)]) < length (to_bits (''A'' @ ''#''))
   \<and> (\<exists>img'. embed ''#'' (\<lambda>s xs. rev xs) ''k'' ''A'' \<lparr>pixel = 2, imagedata = [[7, 7, 7], [8, 8, 8]]\<rparr>
                 \<lparr>band_lsb = [(0, 1), (2, 2)], ch_limit = - 1\<rparr> = Inr img'
           \<and> length img' = length [[7, 7, 7], [8, 8, 8 :: nat]]
           \<and> read_bits img' (List.product (pixel_order (\<lambda>s xs. rev xs) 2 ''k'') [(0, 1), (2, 2)])
               = take (2 * sum_list (map snd [(0 :: nat, 1 :: nat), (2, 2)])) (to_bits (''A'' @ ''#'')))"
proof -
  let ?pic = "\<lparr>pixel = 2, imagedata = [[7, 7, 7], [8, 8, 8]]\<rparr>"
  let ?glob = "\<lparr>band_lsb = [(0, 1), (2, 2)], ch_limit = - 1\<rparr>"
  have h1: "picture_ok 3 ?pic" by code_simp
  have h2: "alloc_ok 3 (band_lsb ?glob)" by code_simp
  have h3: "order_ok (pixel ?pic) (pixel_order (\<lambda>s xs. rev xs) (pixel ?pic) ''k'')" by code_simp
  have h4: "pixel ?pic * sum_list (map snd (band_lsb ?glob)) < length (to_bits (''A'' @ ''#''))"
    by code_simp
  have sel: "imagedata ?pic = [[7, 7, 7], [8, 8, 8]]" "pixel ?pic = 2"
    "band_lsb ?glob = [(0, 1), (2, 2)]" by simp_all
  show ?thesis
    using h1 h2 [unfolded sel] h3 [unfolded sel] h4 [unfolded sel]
      embed_overflow [OF h1 h2 h3 h4, unfolded sel]
    by (intro conjI)
qed

subsection \<open>Delimiter detection\<close>








lemma running_0 [simp]: "running img st steps 0 = snd st"
  by (simp add: running_def)








subsection \<open>The Hill cipher's length check\<close>

text \<open>
  C8.  When the cipher is the Hill cipher and its ciphertext is longer than the current
  character limit, \<^verbatim>\<open>encode\<close> ends with an error and the picture as it was, without
  embedding; for a message that passes the earlier checks (printable characters, a file
  name with a valid extension) the error is the over-limit error.
\<close>

theorem hill_over_limit:
  assumes "name ciph = hill" and "int (length (encrypt ciph message)) > ch_limit glob"
  shows "(\<exists>e. encode delim hill shuffle (Inr ciph) output ext_ok seed message pic glob = (Inl e, pic))
     \<and> (list_all printable message \<and> output \<noteq> [] \<and> ext_ok \<longrightarrow>
          encode delim hill shuffle (Inr ciph) output ext_ok seed message pic glob
            = (Inl (CiphertextTooLong (length (encrypt ciph message))), pic))"
proof -
  have "find (\<lambda>char. \<not> printable char) message = None" if "list_all printable message"
    using that by (simp add: find_None_iff list_all_iff)
  then show ?thesis
    using assms by (auto simp: encode_def Let_def split: option.split)
qed

theorem hill_over_limit_witness:
  "name \<lparr>name = ''Hill'', encrypt = (\<lambda>s. s @ ''XX''), decrypt = (\<lambda>s. s)\<rparr> = ''Hill''
   \<and> int (length (encrypt \<lparr>name = ''Hill'', encrypt = (\<lambda>s. s @ ''XX''), decrypt = (\<lambda>s. s)\<rparr> ''HI''))
       > ch_limit \<lparr>band_lsb = [(0, 1)], ch_limit = 3\<rparr>
   \<and> list_all printable ''HI'' \<and> ''out.png'' \<noteq> [] \<and> True
   \<and> encode ''#'' ''Hill'' (\<lambda>s xs. xs) (Inr \<lparr>name = ''Hill'', encrypt = (\<lambda>s. s @ ''XX''), decrypt = (\<lambda>s. s)\<rparr>)
        ''out.png'' True [] ''HI'' \<lparr>pixel = 32, imagedata = replicate 32 [9, 9, 9]\<rparr>
        \<lparr>band_lsb = [(0, 1)], ch_limit = 3\<rparr>
       = (Inl (CiphertextTooLong (length (encrypt \<lparr>name = ''Hill'', encrypt = (\<lambda>s. s @ ''XX''), decrypt = (\<lambda>s. s)\<rparr> ''HI''))),
          \<lparr>pixel = 32, imagedata = replicate 32 [9, 9, 9]\<rparr>)"
proof -
  have h1: "name \<lparr>name = ''Hill'', encrypt = (\<lambda>s. s @ ''XX''), decrypt = (\<lambda>s. s)\<rparr> = ''Hill''" by simp
  have h2: "int (length (encrypt \<lparr>name = ''Hill'', encrypt = (\<lambda>s. s @ ''XX''), decrypt = (\<lambda>s. s)\<rparr> ''HI''))
       > ch_limit \<lparr>band_lsb = [(0, 1)], ch_limit = 3\<rparr>" by simp
  have g: "list_all printable ''HI''" "''out.png'' \<noteq> []" by code_simp+
  from hill_over_limit [OF h1 h2, of "''#''" "\<lambda>s xs. xs" "''out.png''" True "[]"
      "\<lparr>pixel = 32, imagedata = replicate 32 [9, 9, 9]\<rparr>"] h1 h2 g
  show ?thesis by blast
qed

subsection \<open>Brute-force search\<close>

lemma compress_enumerate:
  "compress (enumerate n t) t = filter (\<lambda>(i, x). x \<noteq> 0) (enumerate n t)"
proof -
  have "map fst (filter (\<lambda>(d, s). s \<noteq> 0) (zip (enumerate n t) t))
      = filter (\<lambda>(i, x). x \<noteq> 0) (enumerate n t)"
    by (induction t arbitrary: n) simp_all
  then show ?thesis by (simp add: compress_def)
qed

lemma alloc_ok_compress:
  assumes "length t \<le> chans" "list_all (\<lambda>x. x \<le> B) t"
  shows "alloc_ok chans (compress (enumerate 0 t) t)"
proof -
  have "distinct (map fst (enumerate 0 t))" by simp
  then have d: "distinct (map fst (filter (\<lambda>(i, x). x \<noteq> 0) (enumerate 0 t)))"
    by (rule distinct_map_filter)
  have "band < chans \<and> 1 \<le> lsb \<and> lsb \<le> B"
    if "(band, lsb) \<in> set (filter (\<lambda>(i, x). x \<noteq> 0) (enumerate 0 t))" for band lsb
  proof -
    from that have "band < length t" "lsb \<in> set t" "lsb \<noteq> 0"
      by (auto simp: in_set_enumerate_eq)
    with assms show ?thesis by (auto simp: list_all_iff)
  qed
  then have "list_all (\<lambda>(band, lsb). band < chans \<and> 1 \<le> lsb \<and> lsb \<le> B)
      (filter (\<lambda>(i, x). x \<noteq> 0) (enumerate 0 t))"
    unfolding list_all_iff by blast
  with d show ?thesis by (simp add: alloc_ok_def compress_enumerate)
qed

lemma possibilities_ok:
  assumes "c \<in> set possibilities" "RGB \<le> chans"
  shows "alloc_ok chans c"
proof -
  from assms(1) obtain t where t: "t \<in> set (product_lists (replicate RGB [0..<B + 1]))"
    and c: "c = compress (enumerate 0 t) t"
    by (auto simp: possibilities_def)
  from t have len: "length t = RGB" by (auto dest: in_set_product_lists_length)
  from t have l2: "list_all2 (\<lambda>x ys. x \<in> set ys) t (replicate RGB [0..<B + 1])"
    by (simp only: product_lists_set mem_Collect_eq)
  have "t ! i \<le> B" if "i < length t" for i
  proof -
    from l2 that have "t ! i \<in> set (replicate RGB [0..<B + 1] ! i)" by (rule list_all2_nthD)
    moreover from that len have "replicate RGB [0..<B + 1] ! i = [0..<B + 1]" by (intro nth_replicate) simp
    ultimately have "t ! i \<in> set [0..<B + 1]" by simp
    then show ?thesis by (simp del: upt_Suc)
  qed
  then have "list_all (\<lambda>x. x \<le> B) t" by (simp add: list_all_length)
  with len assms(2) show ?thesis unfolding c by (intro alloc_ok_compress) simp_all
qed

lemma possibilities_eq:
  "possibilities = map (\<lambda>t. compress (enumerate 0 t) t)
     [[r, g, b]. r \<leftarrow> [0..<9], g \<leftarrow> [0..<9], b \<leftarrow> [0..<9]]"
proof -
  have "replicate RGB [0..<B + 1] = [[0..<9], [0..<9], [0..<9]]"
    by (simp add: RGB_def B_def numeral_3_eq_3)
  moreover have "product_lists [xs, ys, zs] = [[r, g, b]. r \<leftarrow> xs, g \<leftarrow> ys, b \<leftarrow> zs]"
    for xs ys zs :: "nat list"
    by (simp add: map_concat comp_def)
  ultimately show ?thesis by (simp only: possibilities_def)
qed

lemma length_product_lists: "length (product_lists xss) = prod_list (map length xss)"
proof (induction xss)
  case Nil
  then show ?case by simp
next
  case (Cons xs xss)
  have "length (concat (map (\<lambda>x. map ((#) x) ys) xs)) = length xs * length ys" for ys :: "'a list list"
    by (induction xs) simp_all
  with Cons show ?case by simp
qed

lemma length_possibilities: "length possibilities = 9 ^ 3"
  by (simp add: possibilities_def length_product_lists RGB_def B_def)

lemma search_find:
  "(\<And>c. c \<in> set cs \<Longrightarrow> \<exists>m. extract_loop delim img ([], []) (List.product pixels c) = Inr m) \<Longrightarrow>
   search delim img pixels cs =
     (case find (\<lambda>c. endswith (candidate_message delim img pixels c) delim) cs of
        None \<Rightarrow> Inl NoHiddenMessage
      | Some c \<Rightarrow> Inr (candidate_message delim img pixels c))"
proof (induction cs)
  case Nil
  then show ?case by simp
next
  case (Cons c cs)
  from Cons.prems [of c] obtain m where m: "extract_loop delim img ([], []) (List.product pixels c) = Inr m"
    by auto
  then have cm: "candidate_message delim img pixels c = m" by (simp add: candidate_message_def)
  have "search delim img pixels cs =
     (case find (\<lambda>c. endswith (candidate_message delim img pixels c) delim) cs of
        None \<Rightarrow> Inl NoHiddenMessage
      | Some c \<Rightarrow> Inr (candidate_message delim img pixels c))"
    using Cons.prems by (intro Cons.IH) simp
  with m cm show ?case by simp
qed


lemma extract_loop_total:
  assumes "picture_ok chans pic" "alloc_ok chans c" "order_ok (pixel pic) pixels"
  shows "\<exists>m. extract_loop delim (imagedata pic) ([], []) (List.product pixels c) = Inr m"
proof -
  have "steps_ok (imagedata pic) (List.product pixels c)" using assms by (rule steps_ok_product)
  moreover have "image_ok (imagedata pic)" using assms(1) by (rule image_ok_picture)
  ultimately have "extract_loop delim (imagedata pic) ([], []) (List.product pixels c)
      = Inr (scan delim [] ([] @ read_bits (imagedata pic) (List.product pixels c)))"
    by (intro extract_loop_scan) simp_all
  then show ?thesis ..
qed

text \<open>
  C9.  The candidates of the brute-force search are the 729 triples of bit counts 0 to 8
  for the three bands, in the order of the nested enumeration (the last band changing
  fastest), each cut down to its bands with a non-zero count.  The search returns what
  the first candidate whose message ends with the delimiter yields, and
  \<open>NoHiddenMessage\<close> when no candidate's message does.
\<close>

theorem brute_force:
  assumes "picture_ok chans pic" and "RGB \<le> chans"
      and "order_ok (pixel pic) (pixel_order shuffle (pixel pic) seed)"
  shows "possibilities = map (\<lambda>t. filter (\<lambda>(band, lsb). lsb \<noteq> 0) (enumerate 0 t))
             [[r, g, b]. r \<leftarrow> [0..<9], g \<leftarrow> [0..<9], b \<leftarrow> [0..<9]]
     \<and> length possibilities = 9 ^ 3
     \<and> decode_search delim shuffle nonascii True seed pic i_lsb =
         (case find (\<lambda>c. endswith (candidate_message delim (imagedata pic)
                               (pixel_order shuffle (pixel pic) seed) c) delim) possibilities of
            None \<Rightarrow> Inl NoHiddenMessage
          | Some c \<Rightarrow>
              (case nonascii (candidate_message delim (imagedata pic) (pixel_order shuffle (pixel pic) seed) c) of
                 Some ch \<Rightarrow> Inl (InvalidCharacter ch)
               | None \<Rightarrow> Inr (removesuffix (candidate_message delim (imagedata pic)
                                   (pixel_order shuffle (pixel pic) seed) c) delim)))"
proof -
  have total: "\<exists>m. extract_loop delim (imagedata pic) ([], [])
      (List.product (pixel_order shuffle (pixel pic) seed) c) = Inr m" if "c \<in> set possibilities" for c
  proof -
    from that assms(2) have "alloc_ok chans c" by (rule possibilities_ok)
    with assms(1) show ?thesis using assms(3) by (rule extract_loop_total)
  qed
  have "search delim (imagedata pic) (pixel_order shuffle (pixel pic) seed) possibilities =
     (case find (\<lambda>c. endswith (candidate_message delim (imagedata pic)
                               (pixel_order shuffle (pixel pic) seed) c) delim) possibilities of
        None \<Rightarrow> Inl NoHiddenMessage
      | Some c \<Rightarrow> Inr (candidate_message delim (imagedata pic) (pixel_order shuffle (pixel pic) seed) c))"
    using total by (rule search_find)
  then have "decode_search delim shuffle nonascii True seed pic i_lsb =
         (case find (\<lambda>c. endswith (candidate_message delim (imagedata pic)
                               (pixel_order shuffle (pixel pic) seed) c) delim) possibilities of
            None \<Rightarrow> Inl NoHiddenMessage
          | Some c \<Rightarrow>
              (case nonascii (candidate_message delim (imagedata pic) (pixel_order shuffle (pixel pic) seed) c) of
                 Some ch \<Rightarrow> Inl (InvalidCharacter ch)
               | None \<Rightarrow> Inr (removesuffix (candidate_message delim (imagedata pic)
                                   (pixel_order shuffle (pixel pic) seed) c) delim)))"
    by (simp add: decode_search_def Let_def split: option.split)
  moreover have "possibilities = map (\<lambda>t. filter (\<lambda>(band, lsb). lsb \<noteq> 0) (enumerate 0 t))
             [[r, g, b]. r \<leftarrow> [0..<9], g \<leftarrow> [0..<9], b \<leftarrow> [0..<9]]"
    by (simp only: possibilities_eq compress_enumerate)
  ultimately show ?thesis using length_possibilities by blast
qed


theorem brute_force_witness:
  "picture_ok 3 \<lparr>pixel = 16, imagedata = map (\<lambda>c. [0, 0, if c = CHR ''1'' then 1 else 0]) ''0100000100100011''\<rparr>
   \<and> RGB \<le> 3
   \<and> order_ok 16 (pixel_order (\<lambda>s xs. xs) 16 [])
   \<and> possibilities = map (\<lambda>t. filter (\<lambda>(band, lsb). lsb \<noteq> 0) (enumerate 0 t))
             [[r, g, b]. r \<leftarrow> [0..<9], g \<leftarrow> [0..<9], b \<leftarrow> [0..<9]]
   \<and> length possibilities = 9 ^ 3
   \<and> decode_search ''#'' (\<lambda>s xs. xs) (find (\<lambda>c. \<not> printable c)) True []
        \<lparr>pixel = 16, imagedata = map (\<lambda>c. [0, 0, if c = CHR ''1'' then 1 else 0]) ''0100000100100011''\<rparr> [] =
         (case find (\<lambda>c. endswith (candidate_message ''#''
                        (map (\<lambda>c. [0, 0, if c = CHR ''1'' then 1 else 0]) ''0100000100100011'')
                        (pixel_order (\<lambda>s xs. xs) 16 []) c) ''#'') possibilities of
            None \<Rightarrow> Inl NoHiddenMessage
          | Some c \<Rightarrow>
              (case find (\<lambda>c. \<not> printable c) (candidate_message ''#''
                        (map (\<lambda>c. [0, 0, if c = CHR ''1'' then 1 else 0]) ''0100000100100011'')
                        (pixel_order (\<lambda>s xs. xs) 16 []) c) of
                 Some ch \<Rightarrow> Inl (InvalidCharacter ch)
               | None \<Rightarrow> Inr (removesuffix (candidate_message ''#''
                        (map (\<lambda>c. [0, 0, if c = CHR ''1'' then 1 else 0]) ''0100000100100011'')
                        (pixel_order (\<lambda>s xs. xs) 16 []) c) ''#'')))
   \<and> decode_search ''#'' (\<lambda>s xs. xs) (find (\<lambda>c. \<not> printable c)) True []
        \<lparr>pixel = 16, imagedata = map (\<lambda>c. [0, 0, if c = CHR ''1'' then 1 else 0]) ''0100000100100011''\<rparr> []
       = Inr ''A''"
proof -
  let ?pic = "\<lparr>pixel = 16, imagedata = map (\<lambda>c. [0, 0, if c = CHR ''1'' then 1 else 0]) ''0100000100100011''\<rparr>"
  have h1: "picture_ok 3 ?pic" by code_simp
  have h2: "RGB \<le> 3" by code_simp
  have h3: "order_ok (pixel ?pic) (pixel_order (\<lambda>s xs. xs) (pixel ?pic) [])" by code_simp
  have r: "decode_search ''#'' (\<lambda>s xs. xs) (find (\<lambda>c. \<not> printable c)) True [] ?pic [] = Inr ''A''"
    by code_simp
  note t = brute_force [OF h1 h2 h3, of "''#''" "find (\<lambda>c. \<not> printable c)" "[]"]
  have t1: "possibilities = map (\<lambda>t. filter (\<lambda>(band, lsb). lsb \<noteq> 0) (enumerate 0 t))
             [[r, g, b]. r \<leftarrow> [0..<9], g \<leftarrow> [0..<9], b \<leftarrow> [0..<9]]"
    and t2: "length possibilities = 9 ^ 3"
    using t by blast+
  from t have t3: "decode_search ''#'' (\<lambda>s xs. xs) (find (\<lambda>c. \<not> printable c)) True [] ?pic [] =
         (case find (\<lambda>c. endswith (candidate_message ''#'' (imagedata ?pic)
                        (pixel_order (\<lambda>s xs. xs) (pixel ?pic) []) c) ''#'') possibilities of
            None \<Rightarrow> Inl NoHiddenMessage
          | Some c \<Rightarrow>
              (case find (\<lambda>c. \<not> printable c) (candidate_message ''#'' (imagedata ?pic)
                        (pixel_order (\<lambda>s xs. xs) (pixel ?pic) []) c) of
                 Some ch \<Rightarrow> Inl (InvalidCharacter ch)
               | None \<Rightarrow> Inr (removesuffix (candidate_message ''#'' (imagedata ?pic)
                        (pixel_order (\<lambda>s xs. xs) (pixel ?pic) []) c) ''#'')))"
    by blast
  have sel: "imagedata ?pic = map (\<lambda>c. [0, 0, if c = CHR ''1'' then 1 else 0]) ''0100000100100011''"
    "pixel ?pic = 16" by simp_all
  show ?thesis
    using h1 h2 h3 [unfolded sel] t1 t2 t3 [unfolded sel] r by (intro conjI)
qed

subsection \<open>Capacity: theorems\<close>

text \<open>
  C2.  For every pixel count \<open>P\<close>, every allocation with bit counts summing to \<open>S\<close> and
  every delimiter of \<open>D\<close> characters, the capacity that \<^verbatim>\<open>refresh\<close> computes and stores
  is \<open>floor ((P * S) / 8) - D\<close>, for the allocation it stores along with it.
\<close>

theorem capacity_formula:
  "limit_of P A delim = \<lfloor>real (P * sum_list (map snd A)) / 8\<rfloor> - int (length delim)
   \<and> ch_limit (fst (refresh delim pic scales widget message))
       = \<lfloor>real (pixel pic * sum_list (map snd (band_lsb (fst (refresh delim pic scales widget message))))) / 8\<rfloor>
         - int (length delim)"
proof -
  have fl: "\<And>n::nat. \<lfloor>real n / 8\<rfloor> = int n div 8"
  proof -
    fix n :: nat
    have "\<lfloor>real_of_int (int n) / real_of_int 8\<rfloor> = int n div 8"
      by (rule floor_divide_of_int_eq)
    then show "\<lfloor>real n / 8\<rfloor> = int n div 8" by simp
  qed
  have "limit_of P A delim = \<lfloor>real (P * sum_list (map snd A)) / 8\<rfloor> - int (length delim)" for P A
    unfolding limit_of_def B_def fl by simp
  then show ?thesis
    by (simp add: refresh_def Let_def)
qed

subsection \<open>Round trip and capacity at image-open time: theorems\<close>

lemma order_ok_upt: "order_ok P [0..<P]"
  by (simp add: order_ok_def list_all_iff)

text \<open>
  C1.  For every message of printable characters whose framed form meets
  the delimiter first at its end, every allocation that names each band once with 1 to 8
  bits, every seed whose pixel order visits each pixel once, and every picture of bytes
  with the message length at most the computed capacity: embedding succeeds, and
  extracting from its result with the same allocation and seed returns the message.
\<close>

theorem roundtrip:
  assumes "list_all printable M"
      and "picture_ok chans pic"
      and "alloc_ok chans (band_lsb glob)"
      and "order_ok (pixel pic) (pixel_order shuffle (pixel pic) seed)"
      and "int (length M) \<le> limit_of (pixel pic) (band_lsb glob) delim"
      and "delimiter_first delim M"
  shows "\<exists>img'. embed delim shuffle seed M pic glob = Inr img'
           \<and> extract_msg delim shuffle seed (pic\<lparr>imagedata := img'\<rparr>) glob = Inr M"
  using roundtrip_general [OF assms(2-6)] by blast

theorem roundtrip_witness:
  "list_all printable ''HI''
   \<and> picture_ok 3 \<lparr>pixel = 30, imagedata = replicate 30 [255, 254, 7]\<rparr>
   \<and> alloc_ok 3 (band_lsb \<lparr>band_lsb = [(0, 3), (2, 2)], ch_limit = 17\<rparr>)
   \<and> order_ok 30 (pixel_order (\<lambda>s xs. rev xs) 30 ''k'')
   \<and> int (length ''HI'') \<le> limit_of 30 [(0, 3), (2, 2)] ''#''
   \<and> delimiter_first ''#'' ''HI''
   \<and> (\<exists>img'. embed ''#'' (\<lambda>s xs. rev xs) ''k'' ''HI''
                \<lparr>pixel = 30, imagedata = replicate 30 [255, 254, 7]\<rparr>
                \<lparr>band_lsb = [(0, 3), (2, 2)], ch_limit = 17\<rparr> = Inr img'
           \<and> extract_msg ''#'' (\<lambda>s xs. rev xs) ''k''
                (\<lparr>pixel = 30, imagedata = replicate 30 [255, 254, 7]\<rparr>\<lparr>imagedata := img'\<rparr>)
                \<lparr>band_lsb = [(0, 3), (2, 2)], ch_limit = 17\<rparr> = Inr ''HI'')"
proof -
  have h1: "list_all printable ''HI''" by code_simp
  have h2: "picture_ok 3 \<lparr>pixel = 30, imagedata = replicate 30 [255, 254, 7]\<rparr>" by code_simp
  have h3: "alloc_ok 3 (band_lsb \<lparr>band_lsb = [(0, 3), (2, 2)], ch_limit = 17\<rparr>)" by code_simp
  have h4: "order_ok (pixel \<lparr>pixel = 30, imagedata = replicate 30 [255, 254, 7]\<rparr>)
      (pixel_order (\<lambda>s xs. rev xs) (pixel \<lparr>pixel = 30, imagedata = replicate 30 [255, 254, 7]\<rparr>) ''k'')"
    by code_simp
  have h5: "int (length ''HI'') \<le> limit_of (pixel \<lparr>pixel = 30, imagedata = replicate 30 [255, 254, 7]\<rparr>)
      (band_lsb \<lparr>band_lsb = [(0, 3), (2, 2)], ch_limit = 17\<rparr>) ''#''"
    by code_simp
  have h6: "delimiter_first ''#'' ''HI''" by code_simp
  from roundtrip [OF h1 h2 h3 h4 h5 h6] h1 h2 h3 h4 h5 h6 show ?thesis by simp
qed

theorem roundtrip_counterexample:
  "list_all printable ''#''
   \<and> picture_ok 3 \<lparr>pixel = 16, imagedata = replicate 16 [0, 0, 0]\<rparr>
   \<and> alloc_ok 3 [(0, 1)]
   \<and> order_ok 16 (pixel_order (\<lambda>s xs. xs) 16 [])
   \<and> int (length ''#'') \<le> limit_of 16 [(0, 1)] ''#''
   \<and> embed ''#'' (\<lambda>s xs. xs) [] ''#'' \<lparr>pixel = 16, imagedata = replicate 16 [0, 0, 0]\<rparr>
        \<lparr>band_lsb = [(0, 1)], ch_limit = 1\<rparr>
       = Inr (map (\<lambda>c. [if c = CHR ''1'' then 1 else 0, 0, 0]) ''0010001100100011'')
   \<and> extract_msg ''#'' (\<lambda>s xs. xs) []
        \<lparr>pixel = 16, imagedata =
          (map (\<lambda>c. [if c = CHR ''1'' then 1 else 0, 0, 0]) ''0010001100100011'')\<rparr>
        \<lparr>band_lsb = [(0, 1)], ch_limit = 1\<rparr>
       = Inr []
   \<and> extract_msg ''#'' (\<lambda>s xs. xs) []
        \<lparr>pixel = 16, imagedata =
          (map (\<lambda>c. [if c = CHR ''1'' then 1 else 0, 0, 0]) ''0010001100100011'')\<rparr>
        \<lparr>band_lsb = [(0, 1)], ch_limit = 1\<rparr>
       \<noteq> Inr ''#''"
  by code_simp

text \<open>
  C3.  The capacity that \<^verbatim>\<open>open_\<close> reports is \<open>P * number of bands - D\<close>:
  the capacity formula at the largest allocation, \<open>B\<close> bits in every band.
\<close>

theorem open_capacity:
  "ch_capacity P band_scl delim = int P * int (length band_scl) - int (length delim)
   \<and> ch_capacity P band_scl delim
       = limit_of P (map (\<lambda>band. (band, B)) [0..<length band_scl]) delim"
proof -
  have "sum_list (map snd (map (\<lambda>band. (band, B)) [0..<n])) = n * B" for n
    by (induction n) (simp_all add: comp_def)
  then show ?thesis
    by (simp add: ch_capacity_def limit_of_def B_def)
qed

theorem open_capacity_counterexample:
  "ch_capacity 100 [1, 1, 1 :: nat] ''#'' = 299
   \<and> limit_of 100 (map (\<lambda>band. (band, 1)) [0..<length [1, 1, 1 :: nat]]) ''#'' = 36
   \<and> ch_capacity 100 [1, 1, 1 :: nat] ''#''
       \<noteq> limit_of 100 (map (\<lambda>band. (band, 1)) [0..<length [1, 1, 1 :: nat]]) ''#''"
  by code_simp

text \<open>
  C4.  With 100 pixels, one bit of band 0, the delimiter \<open>#\<close> and no seed
  the capacity is \<open>100 div 8 - 1 = 11\<close> characters, and embedding \<open>HI\<close> then extracting
  with the same parameters returns \<open>HI\<close>.
\<close>

theorem example_100:
  assumes "picture_ok chans pic" and "pixel pic = 100" and "0 < chans"
  shows "limit_of (pixel pic) [(0, 1)] ''#'' = 11
     \<and> (\<exists>img'. embed ''#'' shuffle [] ''HI'' pic \<lparr>band_lsb = [(0, 1)], ch_limit = 11\<rparr> = Inr img'
           \<and> extract_msg ''#'' shuffle [] (pic\<lparr>imagedata := img'\<rparr>)
                \<lparr>band_lsb = [(0, 1)], ch_limit = 11\<rparr> = Inr ''HI'')"
proof -
  have lim: "limit_of 100 [(0, 1)] ''#'' = 11" by (simp add: limit_of_def B_def)
  have al: "alloc_ok chans (band_lsb \<lparr>band_lsb = [(0, 1)], ch_limit = 11\<rparr>)"
    using assms(3) by (simp add: alloc_ok_def B_def)
  have ord: "order_ok (pixel pic) (pixel_order shuffle (pixel pic) [])"
    by (simp add: pixel_order_def order_ok_upt)
  have cap: "int (length ''HI'') \<le> limit_of (pixel pic) (band_lsb \<lparr>band_lsb = [(0, 1)], ch_limit = 11\<rparr>) ''#''"
    using lim assms(2) by simp
  have first: "delimiter_first ''#'' ''HI''" by code_simp
  from roundtrip_general [OF assms(1) al ord cap first] lim assms(2) show ?thesis by auto
qed

theorem example_100_witness:
  "picture_ok 3 \<lparr>pixel = 100, imagedata = replicate 100 [10, 20, 30]\<rparr>
   \<and> pixel \<lparr>pixel = 100, imagedata = replicate 100 [10, 20, 30]\<rparr> = 100
   \<and> (0::nat) < 3
   \<and> limit_of (pixel \<lparr>pixel = 100, imagedata = replicate 100 [10, 20, 30]\<rparr>) [(0, 1)] ''#'' = 11
   \<and> (\<exists>img'. embed ''#'' (\<lambda>s xs. xs) [] ''HI'' \<lparr>pixel = 100, imagedata = replicate 100 [10, 20, 30]\<rparr>
                \<lparr>band_lsb = [(0, 1)], ch_limit = 11\<rparr> = Inr img'
           \<and> extract_msg ''#'' (\<lambda>s xs. xs) []
                (\<lparr>pixel = 100, imagedata = replicate 100 [10, 20, 30]\<rparr>\<lparr>imagedata := img'\<rparr>)
                \<lparr>band_lsb = [(0, 1)], ch_limit = 11\<rparr> = Inr ''HI'')"
proof -
  have h1: "picture_ok 3 \<lparr>pixel = 100, imagedata = replicate 100 [10, 20, 30]\<rparr>" by code_simp
  have h2: "pixel \<lparr>pixel = 100, imagedata = replicate 100 [10, 20, 30]\<rparr> = 100" by simp
  have h3: "(0::nat) < 3" by simp
  from example_100 [OF h1 h2 h3, of "\<lambda>s xs. xs"] h1 h2 h3 show ?thesis by blast
qed

theorem example_100_counterexample:
  "limit_of 100 [(0, 1)] ''#'' = 11 \<and> limit_of 100 [(0, 1)] ''#'' \<noteq> 99"
  by code_simp

end
